theory Spec2Isabelle
  imports Complex_Main "HOL-Library.Word"
begin

section \<open>Video readers: a shallow embedding of \<open>src/input.py\<close>\<close>

text \<open>
  The module wraps a byte source (an open file object, or an adapter around the chunk
  iterator of a streamed HTTP response) in a reader that mirrors what it has read into a
  memory buffer, so that \<open>refresh\<close> can rewind without reopening the source.

  Every method is a function from the reader before the call to a triple: the outcome
  (\<open>Inl\<close> an exception, \<open>Inr\<close> the returned value), the reader after the call (an
  exception leaves the object as it was mutated up to the raise), and the calls made on
  external collaborators, in order. The file system and the network are a fixed
  environment. Calls to \<open>logging\<close> are not modelled.
\<close>

subsection \<open>Bytes, errors, external calls\<close>

type_synonym byte = "8 word"

datatype error =
    FileNotExist string  \<comment> \<open>\<open>Exception('File {} not exist.')\<close> of \<open>FileVideoReader.__init__\<close>\<close>
  | SystemExit int       \<comment> \<open>\<open>sys.exit(code)\<close>\<close>
  | BadStatus int        \<comment> \<open>\<open>Exception('Can not open the remote video, ...')\<close>\<close>
  | FileNotFoundError    \<comment> \<open>\<open>open\<close> or \<open>os.path.getsize\<close> on a missing path\<close>
  | ConnectionError      \<comment> \<open>\<open>requests.get\<close> could not obtain a response\<close>
  | StopIteration        \<comment> \<open>\<open>next\<close> on an exhausted iterator\<close>
  | ValueError           \<comment> \<open>read of a closed file; bad argument of a builtin\<close>
  | TypeError            \<comment> \<open>\<open>len(None)\<close>; subscript of a bound method\<close>
  | OverflowError        \<comment> \<open>int too large to convert to float\<close>

datatype event =
    PathExists string    \<comment> \<open>\<open>os.path.exists(path)\<close>\<close>
  | PathGetSize string   \<comment> \<open>\<open>os.path.getsize(path)\<close>\<close>
  | FileOpen string      \<comment> \<open>\<open>open(path, 'rb')\<close>\<close>
  | HttpGet string       \<comment> \<open>\<open>requests.get(url, ...)\<close>\<close>
  | SrcRead int          \<comment> \<open>\<open>self.stream.read(n)\<close>\<close>
  | SrcReadDefault       \<comment> \<open>\<open>self.stream.read()\<close>\<close>
  | SrcClose             \<comment> \<open>\<open>self.stream.close()\<close>\<close>

record response =
  status_code :: int
  headers :: "(string \<times> string) list"
  content :: "byte list"

record env =
  files :: "string \<rightharpoonup> byte list"  \<comment> \<open>path to file contents; \<open>None\<close>: no such file\<close>
  sites :: "string \<rightharpoonup> response"   \<comment> \<open>url to response; \<open>None\<close>: the request raises\<close>

subsection \<open>Byte sources\<close>

text \<open>
  \<open>LocalFile\<close>: the object returned by \<open>open(path, 'rb')\<close>. \<open>RemoteFile\<close>: a
  \<open>RemoteFileStreamAdapter\<close>, whose iterator \<open>response.iter_content(chunk_size=1)\<close>
  yields the body one byte per \<open>next\<close>. \<open>pending\<close> is what the source has yet to deliver.
\<close>

datatype kind = LocalFile | RemoteFile

record stream =
  adapter :: kind
  pending :: "byte list"
  is_closed :: bool

text \<open>
  \<open>stream.read(n)\<close>. A file object returns up to \<open>n\<close> bytes, fewer at end of file, and
  everything left when \<open>n\<close> is negative; a closed file raises. The adapter calls
  \<open>next\<close> \<open>n\<close> times: once the iterator is exhausted the call raises \<open>StopIteration\<close>, and
  the bytes already pulled by that call are lost.
\<close>

definition stream_read :: "stream \<Rightarrow> int \<Rightarrow> (error + byte list) \<times> stream" where
  "stream_read s num_of_byte =
    (case adapter s of
       LocalFile \<Rightarrow>
         if is_closed s then (Inl ValueError, s)
         else if num_of_byte < 0 then (Inr (pending s), s\<lparr>pending := []\<rparr>)
         else (Inr (take (nat num_of_byte) (pending s)),
               s\<lparr>pending := drop (nat num_of_byte) (pending s)\<rparr>)
     | RemoteFile \<Rightarrow>
         if num_of_byte \<ge> 0 then
           (if nat num_of_byte \<le> length (pending s)
            then (Inr (take (nat num_of_byte) (pending s)),
                  s\<lparr>pending := drop (nat num_of_byte) (pending s)\<rparr>)
            else (Inl StopIteration, s\<lparr>pending := []\<rparr>))
         else (Inr (pending s), s\<lparr>pending := []\<rparr>))"

text \<open>
  \<open>stream.read()\<close> without an argument: the file object's default size is \<open>-1\<close>, the
  adapter's default \<open>num_of_byte\<close> is \<open>1\<close>.
\<close>

definition stream_read_default :: "stream \<Rightarrow> (error + byte list) \<times> stream" where
  "stream_read_default s =
    (case adapter s of
       LocalFile \<Rightarrow> stream_read s (- 1)
     | RemoteFile \<Rightarrow> stream_read s 1)"

text \<open>
  \<open>stream.close()\<close>. Closing the response of an adapter ends its chunk iterator.
\<close>

definition stream_close :: "stream \<Rightarrow> stream" where
  "stream_close s =
    (case adapter s of
       LocalFile \<Rightarrow> s\<lparr>is_closed := True\<rparr>
     | RemoteFile \<Rightarrow> s\<lparr>is_closed := True, pending := []\<rparr>)"

subsection \<open>Python slices\<close>

definition py_index :: "int \<Rightarrow> nat \<Rightarrow> nat" where
  \<comment> \<open>a slice bound: negative bounds count from the end, all bounds are clamped\<close>
  "py_index i len = (if i < 0 then nat (max 0 (i + int len)) else min (nat i) len)"

definition py_slice :: "'a list \<Rightarrow> int \<Rightarrow> int \<Rightarrow> 'a list" where
  \<comment> \<open>\<open>xs[i:j]\<close>\<close>
  "py_slice xs i j =
    (let a = py_index i (length xs); b = py_index j (length xs) in take (b - a) (drop a xs))"

definition py_slice_from :: "'a list \<Rightarrow> int \<Rightarrow> 'a list" where
  \<comment> \<open>\<open>xs[i:]\<close>\<close>
  "py_slice_from xs i = drop (py_index i (length xs)) xs"

definition py_startswith :: "string \<Rightarrow> string \<Rightarrow> bool" where
  \<comment> \<open>\<open>s.startswith(p)\<close>\<close>
  "py_startswith s p = (take (length p) s = p)"

subsection \<open>The reader\<close>

text \<open>
  \<open>rkind\<close> is the subclass (\<open>FileVideoReader\<close> or \<open>RemoteFileReader\<close>), which decides
  \<open>_open_stream\<close> and \<open>_init_total_bytes\<close>. \<open>buffer\<close> is \<open>_buffer\<close>, \<open>None\<close> after
  \<open>close()\<close>; \<open>buffer_pointer\<close> is \<open>_buffer_pointer\<close>.
\<close>

record reader =
  rkind :: kind
  video_loc :: string
  max_buffer_length :: int
  stream :: stream
  response :: "response option"
  total_bytes :: int
  buffer :: "byte list option"
  buffer_pointer :: int

definition MAX_BUFFER_LENGTH :: int where
  "MAX_BUFFER_LENGTH = 1024 * 1024"

definition is_buffer_full :: "reader \<Rightarrow> error + bool" where
  "is_buffer_full r =
    (case buffer r of
       None \<Rightarrow> Inl TypeError
     | Some buf \<Rightarrow> Inr (int (length buf) > max_buffer_length r))"

text \<open>
  \<open>read\<close>. The last \<open>elif\<close> of the source is the negation of the one before it, so the
  chain is exhaustive and the method never falls through to return \<open>None\<close>.
\<close>

definition read :: "reader \<Rightarrow> int \<Rightarrow> (error + byte list) \<times> reader \<times> event list" where
  "read r num_of_byte =
    (if num_of_byte < 0 then
       (case stream_read_default (stream r) of
          (out, s') \<Rightarrow> (out, r\<lparr>stream := s'\<rparr>, [SrcReadDefault]))
     else
       case buffer r of
         None \<Rightarrow> (Inl TypeError, r, [])
       | Some buf \<Rightarrow>
           if is_buffer_full r = Inr True then
             (case stream_read (stream r) num_of_byte of
                (out, s') \<Rightarrow> (out, r\<lparr>stream := s'\<rparr>, [SrcRead num_of_byte]))
           else
             let buffer_len = int (length buf);
                 p = buffer_pointer r
             in
               if buffer_len = p + 1 then
                 (case stream_read (stream r) num_of_byte of
                    (Inl e, s') \<Rightarrow> (Inl e, r\<lparr>stream := s'\<rparr>, [SrcRead num_of_byte])
                  | (Inr data, s') \<Rightarrow>
                      (Inr data,
                       r\<lparr>stream := s', buffer := Some (buf @ data),
                         buffer_pointer := p + num_of_byte\<rparr>,
                       [SrcRead num_of_byte]))
               else if buffer_len - (p + 1) \<ge> num_of_byte then
                 (let p' = p + num_of_byte in
                    (Inr (py_slice buf (p' - num_of_byte + 1) (p' + 1)),
                     r\<lparr>buffer_pointer := p'\<rparr>, []))
               else
                 (let data_buffer_part = py_slice_from buf (p + 1);
                      remained_not_read_num = num_of_byte - (buffer_len - (p + 1))
                  in
                    case stream_read (stream r) remained_not_read_num of
                      (Inl e, s') \<Rightarrow>
                        (Inl e, r\<lparr>stream := s'\<rparr>, [SrcRead remained_not_read_num])
                    | (Inr data_read_part, s') \<Rightarrow>
                        (Inr (data_buffer_part @ data_read_part),
                         r\<lparr>stream := s', buffer := Some (buf @ data_read_part),
                           buffer_pointer := p + num_of_byte\<rparr>,
                         [SrcRead remained_not_read_num])))"

subsection \<open>Opening the source\<close>

text \<open>
  \<open>_open_stream\<close>, for a location: the new stream, or the exception; the value assigned to
  \<open>self.response\<close> on the way, if any; the external calls.
\<close>

definition open_stream ::
  "env \<Rightarrow> kind \<Rightarrow> string \<Rightarrow> (error + stream) \<times> response option \<times> event list" where
  "open_stream e k loc =
    (case k of
       LocalFile \<Rightarrow>
         (case files e loc of
            None \<Rightarrow> (Inl FileNotFoundError, None, [FileOpen loc])
          | Some bs \<Rightarrow>
              (Inr \<lparr>adapter = LocalFile, pending = bs, is_closed = False\<rparr>, None, [FileOpen loc]))
     | RemoteFile \<Rightarrow>
         (case sites e loc of
            None \<Rightarrow> (Inl ConnectionError, None, [HttpGet loc])
          | Some resp \<Rightarrow>
              if status_code resp \<noteq> 200
              then (Inl (BadStatus (status_code resp)), Some resp, [HttpGet loc])
              else (Inr \<lparr>adapter = RemoteFile, pending = content resp, is_closed = False\<rparr>,
                    Some resp, [HttpGet loc])))"

definition set_response :: "response option \<Rightarrow> reader \<Rightarrow> reader" where
  "set_response assigned r =
    (case assigned of None \<Rightarrow> r | Some resp \<Rightarrow> r\<lparr>response := Some resp\<rparr>)"

definition refresh :: "env \<Rightarrow> reader \<Rightarrow> (error + unit) \<times> reader \<times> event list" where
  "refresh e r =
    (case is_buffer_full r of
       Inl err \<Rightarrow> (Inl err, r, [])
     | Inr True \<Rightarrow>
         (let r1 = r\<lparr>stream := stream_close (stream r)\<rparr> in
            case open_stream e (rkind r1) (video_loc r1) of
              (Inl err, assigned, evs) \<Rightarrow> (Inl err, set_response assigned r1, SrcClose # evs)
            | (Inr s, assigned, evs) \<Rightarrow>
                (Inr (),
                 (set_response assigned r1)\<lparr>stream := s, buffer := Some [], buffer_pointer := - 1\<rparr>,
                 SrcClose # evs))
     | Inr False \<Rightarrow> (Inr (), r\<lparr>buffer_pointer := - 1\<rparr>, []))"

definition close :: "reader \<Rightarrow> (error + unit) \<times> reader \<times> event list" where
  "close r = (Inr (), r\<lparr>stream := stream_close (stream r), buffer := None\<rparr>, [SrcClose])"

subsection \<open>Construction\<close>

text \<open>
  \<open>int(s)\<close> on a header value: white space at both ends is dropped, then an optional
  sign, then decimal digits, where single underscores may stand between digits. Characters
  are the 8-bit ones of \<open>string\<close>, so the white space is that of Latin-1 and the digits
  are the ASCII ones.
\<close>

definition is_digit :: "char \<Rightarrow> bool" where
  "is_digit c = (c \<in> set ''0123456789'')"

definition digit_value :: "char \<Rightarrow> int" where
  "digit_value c = int (of_char c) - 48"

definition is_space :: "char \<Rightarrow> bool" where
  "is_space c =
    (c \<in> set [CHR 0x09, CHR 0x0A, CHR 0x0B, CHR 0x0C, CHR 0x0D, CHR 0x1C, CHR 0x1D,
               CHR 0x1E, CHR 0x1F, CHR 0x20, CHR 0x85, CHR 0xA0])"

definition py_strip :: "string \<Rightarrow> string" where
  "py_strip s = rev (dropWhile is_space (rev (dropWhile is_space s)))"

fun single_underscores :: "string \<Rightarrow> bool" where
  "single_underscores (a # b # cs) =
    (\<not> (a = CHR ''_'' \<and> b = CHR ''_'') \<and> single_underscores (b # cs))"
| "single_underscores cs = True"

definition digits_value :: "string \<Rightarrow> error + int" where
  "digits_value ds =
    (if ds \<noteq> [] \<and> list_all (\<lambda>c. is_digit c \<or> c = CHR ''_'') ds
        \<and> is_digit (hd ds) \<and> is_digit (last ds) \<and> single_underscores ds
     then Inr (foldl (\<lambda>acc c. acc * 10 + digit_value c) 0 (filter is_digit ds))
     else Inl ValueError)"

definition py_int :: "string \<Rightarrow> error + int" where
  "py_int s =
    (case py_strip s of
       [] \<Rightarrow> Inl ValueError
     | c # cs \<Rightarrow>
         if c = CHR ''-'' then (case digits_value cs of Inl e \<Rightarrow> Inl e | Inr v \<Rightarrow> Inr (- v))
         else if c = CHR ''+'' then digits_value cs
         else digits_value (c # cs))"

text \<open>
  \<open>self.response.headers.get['Content-Length']\<close>: \<open>headers.get\<close> is a bound method, and a
  method object has no \<open>__getitem__\<close>, so the subscript raises whatever the headers hold.
\<close>

definition headers_get_subscript :: "(string \<times> string) list \<Rightarrow> string \<Rightarrow> error + string" where
  "headers_get_subscript hs key = Inl TypeError"

text \<open>
  \<open>_init_total_bytes\<close>: the new value of \<open>total_bytes\<close>, or the exception. The remote
  variant runs inside \<open>try: ... except: pass\<close>, which leaves the old value on any exception.
\<close>

definition init_total_bytes ::
  "env \<Rightarrow> kind \<Rightarrow> string \<Rightarrow> response option \<Rightarrow> int \<Rightarrow> (error + int) \<times> event list" where
  "init_total_bytes e k loc resp old =
    (case k of
       LocalFile \<Rightarrow>
         (case files e loc of
            None \<Rightarrow> (Inl FileNotFoundError, [PathGetSize loc])
          | Some bs \<Rightarrow> (Inr (int (length bs)), [PathGetSize loc]))
     | RemoteFile \<Rightarrow>
         (Inr (case resp of
                 None \<Rightarrow> old
               | Some rp \<Rightarrow>
                   (case headers_get_subscript (headers rp) ''Content-Length'' of
                      Inl err \<Rightarrow> old
                    | Inr v \<Rightarrow> (case py_int v of Inl err \<Rightarrow> old | Inr i \<Rightarrow> i))),
          []))"

text \<open>\<open>VideoReader.__init__\<close>, with the subclass's hooks.\<close>

definition VideoReader_init ::
  "env \<Rightarrow> kind \<Rightarrow> string \<Rightarrow> int \<Rightarrow> (error + reader) \<times> event list" where
  "VideoReader_init e k loc cap =
    (case open_stream e k loc of
       (Inl err, assigned, evs) \<Rightarrow> (Inl err, evs)
     | (Inr s, assigned, evs) \<Rightarrow>
         (case init_total_bytes e k loc assigned (- 1) of
            (Inl err, evs') \<Rightarrow> (Inl err, evs @ evs')
          | (Inr tb, evs') \<Rightarrow>
              (Inr \<lparr>rkind = k, video_loc = loc, max_buffer_length = cap, stream = s,
                    response = assigned, total_bytes = tb, buffer = Some [],
                    buffer_pointer = - 1\<rparr>,
               evs @ evs')))"

definition FileVideoReader_init :: "env \<Rightarrow> string \<Rightarrow> int \<Rightarrow> (error + reader) \<times> event list" where
  "FileVideoReader_init e loc cap =
    (case files e loc of
       None \<Rightarrow> (Inl (FileNotExist loc), [PathExists loc])
     | Some bs \<Rightarrow>
         if \<not> (int (length bs) > 0)
         then (Inl (FileNotExist loc), [PathExists loc, PathGetSize loc])
         else (case VideoReader_init e LocalFile loc cap of
                 (out, evs) \<Rightarrow> (out, [PathExists loc, PathGetSize loc] @ evs)))"

definition RemoteFileReader_init :: "env \<Rightarrow> string \<Rightarrow> int \<Rightarrow> (error + reader) \<times> event list" where
  "RemoteFileReader_init e loc cap =
    (if \<not> py_startswith loc ''http'' \<and> \<not> py_startswith loc ''ftp''
     then (Inl (SystemExit (- 1)), [])
     else VideoReader_init e RemoteFile loc cap)"

subsection \<open>A caller's sequence of calls\<close>

text \<open>
  A caller issues \<open>read\<close> and \<open>refresh\<close> calls one after the other and collects the byte
  strings returned; the first exception ends the sequence.
\<close>

datatype call = Read int | Refresh

fun run :: "env \<Rightarrow> reader \<Rightarrow> call list \<Rightarrow> (error + byte list list) \<times> reader \<times> event list" where
  "run e r [] = (Inr [], r, [])"
| "run e r (Read n # cs) =
    (case read r n of
       (Inl err, r', evs) \<Rightarrow> (Inl err, r', evs)
     | (Inr d, r', evs) \<Rightarrow>
         (case run e r' cs of
            (Inl err, r'', evs') \<Rightarrow> (Inl err, r'', evs @ evs')
          | (Inr ds, r'', evs') \<Rightarrow> (Inr (d # ds), r'', evs @ evs')))"
| "run e r (Refresh # cs) =
    (case refresh e r of
       (Inl err, r', evs) \<Rightarrow> (Inl err, r', evs)
     | (Inr u, r', evs) \<Rightarrow>
         (case run e r' cs of (out, r'', evs') \<Rightarrow> (out, r'', evs @ evs')))"

text \<open>The bytes that opening a location yields, when opening succeeds.\<close>

definition resource_of :: "env \<Rightarrow> kind \<Rightarrow> string \<Rightarrow> byte list option" where
  "resource_of e k loc =
    (case k of
       LocalFile \<Rightarrow> files e loc
     | RemoteFile \<Rightarrow>
         (case sites e loc of
            None \<Rightarrow> None
          | Some resp \<Rightarrow> if status_code resp = 200 then Some (content resp) else None))"

subsection \<open>Reader states in step with the source\<close>

text \<open>
  A reader is in step with a resource when its buffer is a prefix of the resource and
  its open stream holds exactly the rest. The cursor may stand beyond the buffer only
  when the stream is exhausted (a file read past the end returns fewer bytes than asked,
  and \<open>read\<close> advances the cursor by the number asked).
\<close>

definition synced :: "byte list \<Rightarrow> reader \<Rightarrow> bool" where
  "synced res r =
    (case buffer r of
       None \<Rightarrow> False
     | Some b \<Rightarrow>
         adapter (stream r) = rkind r \<and> \<not> is_closed (stream r)
         \<and> b @ pending (stream r) = res \<and> - 1 \<le> buffer_pointer r
         \<and> (int (length b) < buffer_pointer r + 1 \<longrightarrow> pending (stream r) = []))"

subsection \<open>Example environments and sessions\<close>

text \<open>
  A file system holding one file, a network holding one reachable resource, and a session:
  construct a reader, make the calls, return what the calls returned and the reader left.
\<close>

definition file_env :: "byte list \<Rightarrow> env" where
  "file_env bs = \<lparr>files = [''v.mp4'' \<mapsto> bs], sites = Map.empty\<rparr>"

definition site_env :: "(string \<times> string) list \<Rightarrow> byte list \<Rightarrow> env" where
  "site_env hs bs =
    \<lparr>files = Map.empty,
     sites = [''http://h/v.mp4'' \<mapsto> \<lparr>status_code = 200, headers = hs, content = bs\<rparr>]\<rparr>"

definition open_and_run ::
  "env \<Rightarrow> kind \<Rightarrow> string \<Rightarrow> int \<Rightarrow> call list \<Rightarrow> error + byte list list \<times> reader" where
  "open_and_run e k loc cap cs =
    (case (case k of
             LocalFile \<Rightarrow> FileVideoReader_init e loc cap
           | RemoteFile \<Rightarrow> RemoteFileReader_init e loc cap) of
       (Inl err, evs) \<Rightarrow> Inl err
     | (Inr r0, evs) \<Rightarrow>
         (case run e r0 cs of
            (Inl err, r, evs') \<Rightarrow> Inl err
          | (Inr outs, r, evs') \<Rightarrow> Inr (outs, r)))"

subsection \<open>The cursor invariant\<close>

text \<open>\<open>0 \<le> cursor_position + 1 \<le> len(buffer)\<close>, on a reader that has not been closed.\<close>

definition cursor_invariant :: "reader \<Rightarrow> bool" where
  "cursor_invariant r =
    (case buffer r of
       None \<Rightarrow> False
     | Some b \<Rightarrow> 0 \<le> buffer_pointer r + 1 \<and> buffer_pointer r + 1 \<le> int (length b))"

subsection \<open>Coherent readers\<close>

text \<open>
  A call with a length that is not negative, or a refresh. A reader is coherent with a
  resource when its location opens to that resource and its buffer either has overflowed
  (reads bypass it, and the next refresh reopens) or is in step with the resource.
\<close>

fun call_nonneg :: "call \<Rightarrow> bool" where
  "call_nonneg (Read n) = (0 \<le> n)"
| "call_nonneg Refresh = True"

definition coherent :: "env \<Rightarrow> byte list \<Rightarrow> reader \<Rightarrow> bool" where
  "coherent e res r =
    (resource_of e (rkind r) (video_loc r) = Some res
     \<and> (case buffer r of
           None \<Rightarrow> False
         | Some b \<Rightarrow> int (length b) > max_buffer_length r \<or> synced res r))"

subsection \<open>Reachable readers\<close>

text \<open>
  The readers a program can hold: a constructor returned them, or a method call on a
  reachable reader left them, whether the call returned or raised. The environment is
  the same throughout, so a location that opened at construction opens again.

  A reachable reader keeps the stream of its own subclass. While it has not been closed its
  stream is open, and the cursor stands beyond the buffer only on a local file whose
  stream is exhausted.
\<close>

inductive reachable :: "env \<Rightarrow> reader \<Rightarrow> bool" for e :: env where
  construct_file: "FileVideoReader_init e loc cap = (Inr r, evs) \<Longrightarrow> reachable e r"
| construct_remote: "RemoteFileReader_init e loc cap = (Inr r, evs) \<Longrightarrow> reachable e r"
| after_read: "reachable e r \<Longrightarrow> read r n = (out, r', evs) \<Longrightarrow> reachable e r'"
| after_refresh: "reachable e r \<Longrightarrow> refresh e r = (u, r', evs) \<Longrightarrow> reachable e r'"
| after_close: "reachable e r \<Longrightarrow> close r = (u, r', evs) \<Longrightarrow> reachable e r'"

definition settled :: "env \<Rightarrow> reader \<Rightarrow> bool" where
  "settled e r =
    (resource_of e (rkind r) (video_loc r) \<noteq> None
     \<and> adapter (stream r) = rkind r
     \<and> (case buffer r of
           None \<Rightarrow> True
         | Some b \<Rightarrow>
             \<not> is_closed (stream r) \<and> - 1 \<le> buffer_pointer r
             \<and> (int (length b) < buffer_pointer r + 1
                  \<longrightarrow> rkind r = LocalFile \<and> pending (stream r) = [])))"

subsection \<open>Calls that return or raise\<close>

text \<open>
  The reader that a caller holds after a sequence of calls when it goes on after an
  exception (\<open>try: ... except: ...\<close> around each call): every call leaves a reader,
  whether it returned or raised.
\<close>

fun after_calls :: "env \<Rightarrow> reader \<Rightarrow> call list \<Rightarrow> reader" where
  "after_calls e r [] = r"
| "after_calls e r (Read n # cs) = after_calls e (fst (snd (read r n))) cs"
| "after_calls e r (Refresh # cs) = after_calls e (fst (snd (refresh e r))) cs"

text \<open>
  A reader is faithful to a resource when its location opens to that resource and, unless
  its buffer has overflowed, the buffer is a prefix of the resource and the open stream
  holds either exactly the rest or nothing (a remote stream after a read that raised).
\<close>

definition faithful :: "env \<Rightarrow> byte list \<Rightarrow> reader \<Rightarrow> bool" where
  "faithful e res r =
    (resource_of e (rkind r) (video_loc r) = Some res
     \<and> (case buffer r of
           None \<Rightarrow> False
         | Some b \<Rightarrow>
             int (length b) > max_buffer_length r
             \<or> (adapter (stream r) = rkind r \<and> \<not> is_closed (stream r)
                \<and> (b @ pending (stream r) = res
                    \<or> (pending (stream r) = [] \<and> take (length b) res = b)))))"

subsection \<open>Fixed-point numbers\<close>
























section \<open>Lemmas about \<open>read\<close> and construction\<close>

lemma py_slice_nonneg:
  "0 \<le> i \<Longrightarrow> i \<le> j \<Longrightarrow> py_slice xs i j = take (nat j - nat i) (drop (nat i) xs)"
  by (auto simp: py_slice_def py_index_def Let_def min_def)

lemma py_slice_from_nonneg: "0 \<le> i \<Longrightarrow> py_slice_from xs i = drop (nat i) xs"
  by (auto simp: py_slice_from_def py_index_def min_def)

lemma stream_read_exact:
  "\<not> is_closed s \<Longrightarrow> 0 \<le> n \<Longrightarrow> adapter s = LocalFile \<or> nat n \<le> length (pending s) \<Longrightarrow>
   stream_read s n = (Inr (take (nat n) (pending s)), s\<lparr>pending := drop (nat n) (pending s)\<rparr>)"
  by (cases "adapter s") (auto simp: stream_read_def)

lemma read_neg:
  "n < 0 \<Longrightarrow> read r n =
    (case stream_read_default (stream r) of (out, s') \<Rightarrow> (out, r\<lparr>stream := s'\<rparr>, [SrcReadDefault]))"
  by (simp add: read_def)

lemma read_closed: "0 \<le> n \<Longrightarrow> buffer r = None \<Longrightarrow> read r n = (Inl TypeError, r, [])"
  by (simp add: read_def)

lemma read_full:
  "0 \<le> n \<Longrightarrow> buffer r = Some b \<Longrightarrow> int (length b) > max_buffer_length r \<Longrightarrow>
   read r n = (case stream_read (stream r) n of (out, s') \<Rightarrow> (out, r\<lparr>stream := s'\<rparr>, [SrcRead n]))"
  by (simp add: read_def is_buffer_full_def)

lemma read_frontier:
  "0 \<le> n \<Longrightarrow> buffer r = Some b \<Longrightarrow> int (length b) \<le> max_buffer_length r \<Longrightarrow>
   int (length b) = buffer_pointer r + 1 \<Longrightarrow>
   read r n =
     (case stream_read (stream r) n of
        (Inl e, s') \<Rightarrow> (Inl e, r\<lparr>stream := s'\<rparr>, [SrcRead n])
      | (Inr d, s') \<Rightarrow>
          (Inr d, r\<lparr>stream := s', buffer := Some (b @ d),
                    buffer_pointer := buffer_pointer r + n\<rparr>, [SrcRead n]))"
  by (simp add: read_def is_buffer_full_def Let_def)

lemma read_inside:
  "0 \<le> n \<Longrightarrow> buffer r = Some b \<Longrightarrow> int (length b) \<le> max_buffer_length r \<Longrightarrow>
   int (length b) \<noteq> buffer_pointer r + 1 \<Longrightarrow> n \<le> int (length b) - (buffer_pointer r + 1) \<Longrightarrow>
   read r n =
     (Inr (py_slice b (buffer_pointer r + 1) (buffer_pointer r + n + 1)),
      r\<lparr>buffer_pointer := buffer_pointer r + n\<rparr>, [])"
  by (simp add: read_def is_buffer_full_def Let_def)

lemma read_straddle:
  "0 \<le> n \<Longrightarrow> buffer r = Some b \<Longrightarrow> int (length b) \<le> max_buffer_length r \<Longrightarrow>
   int (length b) \<noteq> buffer_pointer r + 1 \<Longrightarrow> int (length b) - (buffer_pointer r + 1) < n \<Longrightarrow>
   read r n =
     (case stream_read (stream r) (n - (int (length b) - (buffer_pointer r + 1))) of
        (Inl e, s') \<Rightarrow>
          (Inl e, r\<lparr>stream := s'\<rparr>, [SrcRead (n - (int (length b) - (buffer_pointer r + 1)))])
      | (Inr d, s') \<Rightarrow>
          (Inr (py_slice_from b (buffer_pointer r + 1) @ d),
           r\<lparr>stream := s', buffer := Some (b @ d), buffer_pointer := buffer_pointer r + n\<rparr>,
           [SrcRead (n - (int (length b) - (buffer_pointer r + 1)))]))"
  by (simp add: read_def is_buffer_full_def Let_def)


lemma syncedI:
  "buffer r = Some b \<Longrightarrow> adapter (stream r) = rkind r \<Longrightarrow> \<not> is_closed (stream r) \<Longrightarrow>
   b @ pending (stream r) = res \<Longrightarrow> - 1 \<le> buffer_pointer r \<Longrightarrow>
   (int (length b) < buffer_pointer r + 1 \<Longrightarrow> pending (stream r) = []) \<Longrightarrow> synced res r"
  by (simp add: synced_def)

lemma syncedD:
  assumes "synced res r" and "buffer r = Some b"
  shows "adapter (stream r) = rkind r" and "\<not> is_closed (stream r)"
    and "res = b @ pending (stream r)" and "- 1 \<le> buffer_pointer r"
    and "int (length b) < buffer_pointer r + 1 \<Longrightarrow> pending (stream r) = []"
  using assms by (auto simp: synced_def)

lemma read_synced:
  assumes sy: "synced res r" and b: "buffer r = Some b"
    and nf: "int (length b) \<le> max_buffer_length r"
    and n: "0 \<le> n"
    and ex: "rkind r = LocalFile \<or> buffer_pointer r + 1 + n \<le> int (length res)"
  shows "\<exists>r' evs b'. read r n = (Inr (take (nat n) (drop (nat (buffer_pointer r + 1)) res)), r', evs)
      \<and> synced res r' \<and> buffer r' = Some b' \<and> buffer_pointer r' = buffer_pointer r + n
      \<and> length b \<le> length b'
      \<and> int (length b') \<le> max (int (length b)) (buffer_pointer r + 1 + n)
      \<and> rkind r' = rkind r \<and> video_loc r' = video_loc r
      \<and> max_buffer_length r' = max_buffer_length r"
proof -
  let ?p = "buffer_pointer r"
  let ?s = "stream r"
  note d = syncedD [OF sy b]
  have ad: "adapter ?s = rkind r" and op: "\<not> is_closed ?s"
    and res: "res = b @ pending ?s" and p: "- 1 \<le> ?p" by (rule d)+
  have fin: ?thesis
    if "read r n = (Inr out, R, E)" "out = take (nat n) (drop (nat (?p + 1)) res)"
      "synced res R" "buffer R = Some b'" "buffer_pointer R = ?p + n" "length b \<le> length b'"
      "int (length b') \<le> max (int (length b)) (?p + 1 + n)"
      "rkind R = rkind r" "video_loc R = video_loc r" "max_buffer_length R = max_buffer_length r"
    for out R E b'
    using that by blast
  consider (straddle_lt) "?p + 1 < int (length b)" "int (length b) - (?p + 1) < n"
    | (straddle_gt) "int (length b) < ?p + 1"
    | (inside) "int (length b) \<noteq> ?p + 1" "int (length b) - (?p + 1) \<ge> n"
    | (frontier) "int (length b) = ?p + 1"
    by linarith
  then show ?thesis
  proof cases
    case straddle_lt
    let ?m = "n - (int (length b) - (?p + 1))"
    have m: "0 \<le> ?m" using straddle_lt by linarith
    have e: "adapter ?s = LocalFile \<or> nat ?m \<le> length (pending ?s)"
    proof (cases "rkind r")
      case LocalFile then show ?thesis using ad by simp
    next
      case RemoteFile
      then have "?p + 1 + n \<le> int (length b) + int (length (pending ?s))"
        using ex res by simp
      then show ?thesis by linarith
    qed
    define q where "q = nat (?p + 1)"
    define k where "k = nat ?m"
    have q: "q < length b" using straddle_lt p unfolding q_def by linarith
    have nk: "nat n = (length b - q) + k"
      using straddle_lt p n unfolding q_def k_def by linarith
    have out: "drop q b @ take k (pending ?s) = take (nat n) (drop q res)"
      unfolding res nk using q by simp
    have rd: "read r n =
        (Inr (drop q b @ take k (pending ?s)),
         r\<lparr>stream := ?s\<lparr>pending := drop k (pending ?s)\<rparr>,
           buffer := Some (b @ take k (pending ?s)), buffer_pointer := ?p + n\<rparr>,
         [SrcRead ?m])"
      unfolding q_def k_def
      using read_straddle [OF n b nf] straddle_lt p
      by (simp add: stream_read_exact [OF op m e] py_slice_from_nonneg)
    show ?thesis
    proof (rule fin [OF rd])
      show "drop q b @ take k (pending ?s) = take (nat n) (drop (nat (?p + 1)) res)"
        using out unfolding q_def .
      have ik: "int (length b) + int k = ?p + 1 + n" using m unfolding k_def by linarith
      show "int (length (b @ take k (pending ?s))) \<le> max (int (length b)) (?p + 1 + n)"
        using ik by simp
      show "synced res (r\<lparr>stream := ?s\<lparr>pending := drop k (pending ?s)\<rparr>,
           buffer := Some (b @ take k (pending ?s)), buffer_pointer := ?p + n\<rparr>)"
      proof (rule syncedI [where b = "b @ take k (pending ?s)"])
        assume "int (length (b @ take k (pending ?s)))
          < buffer_pointer (r\<lparr>stream := ?s\<lparr>pending := drop k (pending ?s)\<rparr>,
           buffer := Some (b @ take k (pending ?s)), buffer_pointer := ?p + n\<rparr>) + 1"
        then have "length (pending ?s) < k" using ik by simp
        then show "pending (stream (r\<lparr>stream := ?s\<lparr>pending := drop k (pending ?s)\<rparr>,
           buffer := Some (b @ take k (pending ?s)), buffer_pointer := ?p + n\<rparr>)) = []"
          by simp
      qed (use ad op res p n in simp_all)
    qed auto
  next
    case straddle_gt
    let ?m = "n - (int (length b) - (?p + 1))"
    have m: "0 \<le> ?m" using straddle_gt n by linarith
    have pe: "pending ?s = []" using d(5) straddle_gt by simp
    have fl: "rkind r = LocalFile" using ex straddle_gt res pe n by auto
    have e: "adapter ?s = LocalFile \<or> nat ?m \<le> length (pending ?s)"
      using fl ad by simp
    have ne: "int (length b) \<noteq> ?p + 1" and lt: "int (length b) - (?p + 1) < n"
      using straddle_gt n by linarith+
    have rd: "read r n = (Inr [], r\<lparr>stream := ?s\<lparr>pending := []\<rparr>, buffer := Some b,
         buffer_pointer := ?p + n\<rparr>, [SrcRead ?m])"
      using read_straddle [OF n b nf ne lt] straddle_gt p
      by (simp add: stream_read_exact [OF op m e] py_slice_from_nonneg pe)
    show ?thesis
    proof (rule fin [OF rd])
      show "[] = take (nat n) (drop (nat (?p + 1)) res)"
        using straddle_gt res pe by simp
      show "synced res (r\<lparr>stream := ?s\<lparr>pending := []\<rparr>, buffer := Some b,
          buffer_pointer := ?p + n\<rparr>)"
        by (rule syncedI [where b = b]) (use ad op res p n pe in simp_all)
    qed auto
  next
    case inside
    have le: "?p + 1 + n \<le> int (length b)" using inside by linarith
    have dn: "nat (?p + n + 1) - nat (?p + 1) = nat n" using p n by linarith
    have rd: "read r n = (Inr (take (nat n) (drop (nat (?p + 1)) b)),
        r\<lparr>buffer_pointer := ?p + n\<rparr>, [])"
      using read_inside [OF n b nf inside] p n by (simp add: py_slice_nonneg dn)
    have nle: "nat (?p + 1) + nat n \<le> length b" using le p n by linarith
    show ?thesis
    proof (rule fin [OF rd])
      show "take (nat n) (drop (nat (?p + 1)) b) = take (nat n) (drop (nat (?p + 1)) res)"
        unfolding res using nle by simp
      show "synced res (r\<lparr>buffer_pointer := ?p + n\<rparr>)"
        by (rule syncedI [where b = b]) (use ad op res p n b le in simp_all)
    qed (use b in auto)
  next
    case frontier
    have e: "adapter ?s = LocalFile \<or> nat n \<le> length (pending ?s)"
    proof (cases "rkind r")
      case LocalFile then show ?thesis using ad by simp
    next
      case RemoteFile
      then have "?p + 1 + n \<le> int (length b) + int (length (pending ?s))"
        using ex res by simp
      then show ?thesis using frontier by linarith
    qed
    define k where "k = nat n"
    have rd: "read r n =
        (Inr (take k (pending ?s)),
         r\<lparr>stream := ?s\<lparr>pending := drop k (pending ?s)\<rparr>,
           buffer := Some (b @ take k (pending ?s)), buffer_pointer := ?p + n\<rparr>,
         [SrcRead n])"
      unfolding k_def
      using read_frontier [OF n b nf frontier]
      by (simp add: stream_read_exact [OF op n e])
    have lb: "nat (?p + 1) = length b" using frontier by linarith
    have ik: "int (length b) + int k = ?p + 1 + n" using frontier n unfolding k_def by linarith
    show ?thesis
    proof (rule fin [OF rd])
      show "take k (pending ?s) = take (nat n) (drop (nat (?p + 1)) res)"
        unfolding res lb k_def by simp
      show "int (length (b @ take k (pending ?s))) \<le> max (int (length b)) (?p + 1 + n)"
        using ik by simp
      show "synced res (r\<lparr>stream := ?s\<lparr>pending := drop k (pending ?s)\<rparr>,
           buffer := Some (b @ take k (pending ?s)), buffer_pointer := ?p + n\<rparr>)"
      proof (rule syncedI [where b = "b @ take k (pending ?s)"])
        assume "int (length (b @ take k (pending ?s)))
          < buffer_pointer (r\<lparr>stream := ?s\<lparr>pending := drop k (pending ?s)\<rparr>,
           buffer := Some (b @ take k (pending ?s)), buffer_pointer := ?p + n\<rparr>) + 1"
        then have "length (pending ?s) < k" using ik by simp
        then show "pending (stream (r\<lparr>stream := ?s\<lparr>pending := drop k (pending ?s)\<rparr>,
           buffer := Some (b @ take k (pending ?s)), buffer_pointer := ?p + n\<rparr>)) = []"
          by simp
      qed (use ad op res p n in simp_all)
    qed auto
  qed
qed


lemma open_stream_resource:
  "resource_of e k loc = Some res \<Longrightarrow>
   \<exists>a. open_stream e k loc =
     (Inr \<lparr>adapter = k, pending = res, is_closed = False\<rparr>, a,
      [case k of LocalFile \<Rightarrow> FileOpen loc | RemoteFile \<Rightarrow> HttpGet loc])"
  by (cases k) (auto simp: resource_of_def open_stream_def split: option.splits if_splits)

lemma open_stream_Inr:
  "open_stream e k loc = (Inr s, a, evs) \<Longrightarrow>
   \<exists>res. resource_of e k loc = Some res \<and> s = \<lparr>adapter = k, pending = res, is_closed = False\<rparr>"
  by (cases k) (auto simp: resource_of_def open_stream_def split: option.splits if_splits)

lemma VideoReader_init_Inr:
  assumes "VideoReader_init e k loc cap = (Inr r, evs)"
  shows "\<exists>res. resource_of e k loc = Some res
    \<and> stream r = \<lparr>adapter = k, pending = res, is_closed = False\<rparr>
    \<and> rkind r = k \<and> video_loc r = loc \<and> max_buffer_length r = cap
    \<and> buffer r = Some [] \<and> buffer_pointer r = - 1"
proof -
  obtain out a evs0 where os: "open_stream e k loc = (out, a, evs0)"
    by (metis prod_cases3)
  show ?thesis
  proof (cases out)
    case (Inl err)
    then show ?thesis using assms os by (simp add: VideoReader_init_def)
  next
    case (Inr s)
    from open_stream_Inr [OF os [unfolded Inr]] obtain res where
      res: "resource_of e k loc = Some res"
      and s: "s = \<lparr>adapter = k, pending = res, is_closed = False\<rparr>" by blast
    show ?thesis
      using assms os Inr res s
      by (auto simp: VideoReader_init_def split: prod.splits sum.splits)
  qed
qed

lemma init_fresh:
  assumes "FileVideoReader_init e loc cap = (Inr r, evs)
         \<or> RemoteFileReader_init e loc cap = (Inr r, evs)"
  shows "\<exists>res. resource_of e (rkind r) (video_loc r) = Some res
    \<and> stream r = \<lparr>adapter = rkind r, pending = res, is_closed = False\<rparr>
    \<and> video_loc r = loc \<and> max_buffer_length r = cap
    \<and> buffer r = Some [] \<and> buffer_pointer r = - 1"
  using assms
proof
  assume a: "FileVideoReader_init e loc cap = (Inr r, evs)"
  then obtain evs' where "VideoReader_init e LocalFile loc cap = (Inr r, evs')"
    by (auto simp: FileVideoReader_init_def split: option.splits if_splits prod.splits)
  from VideoReader_init_Inr [OF this] show ?thesis by auto
next
  assume a: "RemoteFileReader_init e loc cap = (Inr r, evs)"
  then have "VideoReader_init e RemoteFile loc cap = (Inr r, evs)"
    by (auto simp: RemoteFileReader_init_def split: if_splits)
  from VideoReader_init_Inr [OF this] show ?thesis by auto
qed

lemma fresh_synced:
  "stream r = \<lparr>adapter = rkind r, pending = res, is_closed = False\<rparr> \<Longrightarrow>
   buffer r = Some [] \<Longrightarrow> buffer_pointer r = - 1 \<Longrightarrow> synced res r"
  by (simp add: synced_def)


lemma run_reads_synced:
  assumes "synced res r" and "buffer r = Some b"
    and "int (length b) \<le> max_buffer_length r"
    and "\<forall>n\<in>set ns. 0 \<le> n"
    and "buffer_pointer r + 1 + sum_list ns \<le> max_buffer_length r"
    and "buffer_pointer r + 1 + sum_list ns \<le> int (length res)"
  shows "\<exists>r' evs outs. run e r (map Read ns) = (Inr outs, r', evs)
      \<and> concat outs = take (nat (sum_list ns)) (drop (nat (buffer_pointer r + 1)) res)
      \<and> map length outs = map nat ns"
  using assms
proof (induction ns arbitrary: r b)
  case Nil
  then show ?case by simp
next
  case (Cons n ns)
  let ?p = "buffer_pointer r"
  have n: "0 \<le> n" and ns: "\<forall>m\<in>set ns. 0 \<le> m" using Cons.prems(4) by auto
  have s0: "0 \<le> sum_list ns" using ns by (simp add: sum_list_nonneg)
  have p: "- 1 \<le> ?p" using syncedD(4) [OF Cons.prems(1,2)] .
  have ex: "rkind r = LocalFile \<or> ?p + 1 + n \<le> int (length res)"
    using Cons.prems(6) s0 by simp
  from read_synced [OF Cons.prems(1,2,3) n ex] obtain r' evs b' where
    rd: "read r n = (Inr (take (nat n) (drop (nat (?p + 1)) res)), r', evs)"
    and sy: "synced res r'" and b': "buffer r' = Some b'"
    and p': "buffer_pointer r' = ?p + n"
    and len: "int (length b') \<le> max (int (length b)) (?p + 1 + n)"
    and cap: "max_buffer_length r' = max_buffer_length r"
    by blast
  have nf: "int (length b') \<le> max_buffer_length r'"
    using len Cons.prems(3,5) s0 cap by simp
  have c1: "buffer_pointer r' + 1 + sum_list ns \<le> max_buffer_length r'"
    using Cons.prems(5) p' cap by simp
  have c2: "buffer_pointer r' + 1 + sum_list ns \<le> int (length res)"
    using Cons.prems(6) p' by simp
  from Cons.IH [OF sy b' nf ns c1 c2] obtain r'' evs' outs where
    rn: "run e r' (map Read ns) = (Inr outs, r'', evs')"
    and cc: "concat outs = take (nat (sum_list ns)) (drop (nat (buffer_pointer r' + 1)) res)"
    and ml: "map length outs = map nat ns"
    by blast
  have q: "nat (buffer_pointer r' + 1) = nat (?p + 1) + nat n" using p' p n by simp
  have sm: "nat (sum_list (n # ns)) = nat n + nat (sum_list ns)" using n s0 by simp
  have "?p + 1 + n + sum_list ns \<le> int (length res)" using Cons.prems(6) by simp
  then have le: "nat (?p + 1) + nat n \<le> length res" using s0 p n by linarith
  have "concat (take (nat n) (drop (nat (?p + 1)) res) # outs)
      = take (nat (sum_list (n # ns))) (drop (nat (?p + 1)) res)"
    unfolding sm take_add concat.simps cc q by (simp add: add.commute)
  moreover have "map length (take (nat n) (drop (nat (?p + 1)) res) # outs) = map nat (n # ns)"
    using ml le by simp
  ultimately show ?case using rd rn by simp
qed

lemmas model_defs = FileVideoReader_init_def RemoteFileReader_init_def VideoReader_init_def
  open_stream_def init_total_bytes_def headers_get_subscript_def py_startswith_def
  read_def refresh_def is_buffer_full_def stream_read_def stream_read_default_def
  stream_close_def set_response_def py_slice_def py_slice_from_def py_index_def
  file_env_def site_env_def open_and_run_def MAX_BUFFER_LENGTH_def

lemma stream_read_remote_short:
  "adapter s = RemoteFile \<Longrightarrow> 0 \<le> m \<Longrightarrow> int (length (pending s)) < m \<Longrightarrow>
   stream_read s m = (Inl StopIteration, s\<lparr>pending := []\<rparr>)"
  by (simp add: stream_read_def)

lemma stream_read_file:
  "adapter s = LocalFile \<Longrightarrow> \<not> is_closed s \<Longrightarrow> 0 \<le> m \<Longrightarrow>
   stream_read s m = (Inr (take (nat m) (pending s)), s\<lparr>pending := drop (nat m) (pending s)\<rparr>)"
  by (simp add: stream_read_def)

lemma cursor_invariant_init:
  assumes "FileVideoReader_init e loc cap = (Inr r0, evs0)
         \<or> RemoteFileReader_init e loc cap = (Inr r0, evs0)"
  shows "cursor_invariant r0"
  using init_fresh [OF assms] by (auto simp: cursor_invariant_def)

lemma refresh_closed: "buffer r = None \<Longrightarrow> refresh e r = (Inl TypeError, r, [])"
  by (simp add: refresh_def is_buffer_full_def)

lemma refresh_keep:
  "buffer r = Some b \<Longrightarrow> int (length b) \<le> max_buffer_length r \<Longrightarrow>
   refresh e r = (Inr (), r\<lparr>buffer_pointer := - 1\<rparr>, [])"
  by (simp add: refresh_def is_buffer_full_def)

lemma refresh_reopen:
  "buffer r = Some b \<Longrightarrow> int (length b) > max_buffer_length r \<Longrightarrow>
   refresh e r =
     (case open_stream e (rkind r) (video_loc r) of
        (Inl err, assigned, evs) \<Rightarrow>
          (Inl err, set_response assigned (r\<lparr>stream := stream_close (stream r)\<rparr>),
           SrcClose # evs)
      | (Inr s, assigned, evs) \<Rightarrow>
          (Inr (),
           (set_response assigned (r\<lparr>stream := stream_close (stream r)\<rparr>))
             \<lparr>stream := s, buffer := Some [], buffer_pointer := - 1\<rparr>,
           SrcClose # evs))"
  by (simp add: refresh_def is_buffer_full_def Let_def)

lemma set_response_fields [simp]:
  "buffer (set_response a r) = buffer r"
  "buffer_pointer (set_response a r) = buffer_pointer r"
  "rkind (set_response a r) = rkind r"
  "video_loc (set_response a r) = video_loc r"
  "max_buffer_length (set_response a r) = max_buffer_length r"
  "stream (set_response a r) = stream r"
  by (cases a; simp add: set_response_def)+

lemma cursor_invariant_refresh:
  assumes "cursor_invariant r" and "refresh e r = (u, r1, evs1)"
  shows "cursor_invariant r1"
proof -
  from assms(1) obtain b where b: "buffer r = Some b" and lo: "0 \<le> buffer_pointer r + 1"
    and hi: "buffer_pointer r + 1 \<le> int (length b)"
    by (auto simp: cursor_invariant_def split: option.splits)
  show ?thesis
  proof (cases "int (length b) > max_buffer_length r")
    case True
    show ?thesis using assms(2) b lo hi
      by (auto simp: refresh_reopen [OF b True] cursor_invariant_def
          split: prod.splits sum.splits)
  next
    case False
    then have "int (length b) \<le> max_buffer_length r" by simp
    from refresh_keep [OF b this] show ?thesis using assms(2) b
      by (auto simp: cursor_invariant_def)
  qed
qed

lemma cursor_invariant_read:
  assumes inv: "cursor_invariant r" and rd: "read r n = (out, r2, evs2)"
    and ok: "n < 0 \<or> (\<exists>err. out = Inl err) \<or> (\<exists>d. out = Inr d \<and> int (length d) = n)"
  shows "cursor_invariant r2"
proof -
  let ?p = "buffer_pointer r"
  from inv obtain b where b: "buffer r = Some b" and lo: "0 \<le> ?p + 1"
    and hi: "?p + 1 \<le> int (length b)"
    by (auto simp: cursor_invariant_def split: option.splits)
  consider (neg) "n < 0"
    | (full) "0 \<le> n" "int (length b) > max_buffer_length r"
    | (frontier) "0 \<le> n" "int (length b) \<le> max_buffer_length r" "int (length b) = ?p + 1"
    | (inside) "0 \<le> n" "int (length b) \<le> max_buffer_length r" "int (length b) \<noteq> ?p + 1"
        "n \<le> int (length b) - (?p + 1)"
    | (straddle) "0 \<le> n" "int (length b) \<le> max_buffer_length r" "int (length b) \<noteq> ?p + 1"
        "int (length b) - (?p + 1) < n"
    by linarith
  then show ?thesis
  proof cases
    case neg
    then show ?thesis using rd b lo hi
      by (auto simp: read_neg cursor_invariant_def split: prod.splits)
  next
    case full
    then show ?thesis using rd b lo hi
      by (auto simp: read_full [OF full(1) b full(2)] cursor_invariant_def split: prod.splits)
  next
    case frontier
    then show ?thesis using rd b lo hi ok
      by (auto simp: read_frontier [OF frontier(1) b frontier(2,3)] cursor_invariant_def
          split: prod.splits sum.splits)
  next
    case inside
    then show ?thesis using rd b lo hi
      by (auto simp: read_inside [OF inside(1) b inside(2,3,4)] cursor_invariant_def)
  next
    case straddle
    have sl: "int (length (py_slice_from b (?p + 1))) = int (length b) - (?p + 1)"
      using lo hi by (simp add: py_slice_from_nonneg)
    show ?thesis using rd b lo hi ok straddle sl
      by (auto simp: read_straddle [OF straddle(1) b straddle(2,3,4)] cursor_invariant_def
          split: prod.splits sum.splits)
  qed
qed


lemma stream_read_remote_Inr:
  "adapter s = RemoteFile \<Longrightarrow> 0 \<le> m \<Longrightarrow> stream_read s m = (Inr d, s') \<Longrightarrow>
   int (length d) = m"
  by (auto simp: stream_read_def split: if_splits)

lemma remote_read_exact:
  assumes inv: "cursor_invariant r" and ad: "adapter (stream r) = RemoteFile"
    and rd: "read r n = (Inr d, r2, evs2)" and n: "0 \<le> n"
  shows "int (length d) = n"
proof -
  let ?p = "buffer_pointer r"
  from inv obtain b where b: "buffer r = Some b" and lo: "0 \<le> ?p + 1"
    and hi: "?p + 1 \<le> int (length b)"
    by (auto simp: cursor_invariant_def split: option.splits)
  consider (full) "int (length b) > max_buffer_length r"
    | (frontier) "int (length b) \<le> max_buffer_length r" "int (length b) = ?p + 1"
    | (inside) "int (length b) \<le> max_buffer_length r" "int (length b) \<noteq> ?p + 1"
        "n \<le> int (length b) - (?p + 1)"
    | (straddle) "int (length b) \<le> max_buffer_length r" "int (length b) \<noteq> ?p + 1"
        "int (length b) - (?p + 1) < n"
    by linarith
  then show ?thesis
  proof cases
    case full
    show ?thesis using rd stream_read_remote_Inr [OF ad n]
      by (auto simp: read_full [OF n b full] split: prod.splits)
  next
    case frontier
    show ?thesis using rd stream_read_remote_Inr [OF ad n]
      by (auto simp: read_frontier [OF n b frontier] split: prod.splits sum.splits)
  next
    case inside
    have "nat (?p + n + 1) - nat (?p + 1) = nat n" using lo n by linarith
    moreover have "nat (?p + 1) + nat n \<le> length b" using inside lo n by linarith
    ultimately show ?thesis using rd lo n
      by (auto simp: read_inside [OF n b inside] py_slice_nonneg)
  next
    case straddle
    let ?m = "n - (int (length b) - (?p + 1))"
    have m: "0 \<le> ?m" using straddle by linarith
    have sl: "int (length (py_slice_from b (?p + 1))) = int (length b) - (?p + 1)"
      using lo hi by (simp add: py_slice_from_nonneg)
    show ?thesis using rd stream_read_remote_Inr [OF ad m] sl
      by (auto simp: read_straddle [OF n b straddle] split: prod.splits sum.splits)
  qed
qed

lemma read_fresh_stream:
  assumes st: "stream r = \<lparr>adapter = k, pending = res, is_closed = False\<rparr>"
    and b: "buffer r = Some []" and p: "buffer_pointer r = - 1"
    and n: "0 \<le> n" and ex: "k = LocalFile \<or> n \<le> int (length res)"
  shows "fst (read r n) = Inr (take (nat n) res)"
proof -
  have op: "\<not> is_closed (stream r)" using st by simp
  have e: "adapter (stream r) = LocalFile \<or> nat n \<le> length (pending (stream r))"
    using ex st n by auto
  have sr: "fst (stream_read (stream r) n) = Inr (take (nat n) res)"
    using stream_read_exact [OF op n e] st by simp
  show ?thesis
  proof (cases "int (length ([] :: byte list)) > max_buffer_length r")
    case True
    show ?thesis using sr
      by (auto simp: read_full [OF n b True] split: prod.splits)
  next
    case False
    then have nf: "int (length ([] :: byte list)) \<le> max_buffer_length r" by simp
    have fr: "int (length ([] :: byte list)) = buffer_pointer r + 1" using p by simp
    show ?thesis using sr
      by (auto simp: read_frontier [OF n b nf fr] split: prod.splits sum.splits)
  qed
qed

lemma read_short:
  assumes b: "buffer r = Some b"
    and lo: "0 \<le> buffer_pointer r + 1" and hi: "buffer_pointer r + 1 \<le> int (length b)"
    and n: "0 \<le> n" and op: "\<not> is_closed (stream r)"
    and short: "int (length (pending (stream r)))
        + (if int (length b) > max_buffer_length r then 0
           else int (length b) - (buffer_pointer r + 1)) < n"
  shows "(adapter (stream r) = RemoteFile \<longrightarrow>
           (\<exists>r' evs. read r n = (Inl StopIteration, r', evs)
              \<and> buffer r' = buffer r \<and> buffer_pointer r' = buffer_pointer r))
       \<and> (adapter (stream r) = LocalFile \<longrightarrow>
           (\<exists>d r' evs. read r n = (Inr d, r', evs) \<and> int (length d) < n))"
proof -
  let ?p = "buffer_pointer r"
  let ?s = "stream r"
  consider (full) "int (length b) > max_buffer_length r"
    | (frontier) "int (length b) \<le> max_buffer_length r" "int (length b) = ?p + 1"
    | (straddle) "int (length b) \<le> max_buffer_length r" "?p + 1 < int (length b)"
    using hi by linarith
  then show ?thesis
  proof cases
    case full
    have sh: "int (length (pending ?s)) < n" using short full by simp
    show ?thesis
      using sh n op
      by (cases "adapter ?s")
        (simp_all add: read_full [OF n b full] stream_read_remote_short stream_read_file)
  next
    case frontier
    have sh: "int (length (pending ?s)) < n" using short frontier by simp
    show ?thesis
      using sh n op
      by (cases "adapter ?s")
        (simp_all add: read_frontier [OF n b frontier] stream_read_remote_short stream_read_file)
  next
    case straddle
    let ?m = "n - (int (length b) - (?p + 1))"
    have sh: "int (length (pending ?s)) < ?m" using short straddle by simp
    have m: "0 \<le> ?m" using sh by linarith
    have ne: "int (length b) \<noteq> ?p + 1" and lt: "int (length b) - (?p + 1) < n"
      using straddle sh by linarith+
    have len: "int (length (py_slice_from b (?p + 1) @ take (nat ?m) (pending ?s))) < n"
      using sh lo straddle by (simp add: py_slice_from_nonneg)
    show ?thesis
      using sh m op len
      by (cases "adapter ?s")
        (simp_all add: read_straddle [OF n b straddle(1) ne lt] stream_read_remote_short
          stream_read_file)
  qed
qed

lemma read_remote_short_synced:
  assumes sy: "synced res r" and b: "buffer r = Some b"
    and nf: "int (length b) \<le> max_buffer_length r"
    and rk: "rkind r = RemoteFile" and n: "0 \<le> n"
    and short: "\<not> buffer_pointer r + 1 + n \<le> int (length res)"
  shows "\<exists>r' evs. read r n = (Inl StopIteration, r', evs)"
proof -
  let ?p = "buffer_pointer r"
  let ?s = "stream r"
  note d = syncedD [OF sy b]
  have ad: "adapter ?s = RemoteFile" using d(1) rk by simp
  have res: "int (length res) = int (length b) + int (length (pending ?s))"
    using d(3) by simp
  show ?thesis
  proof (cases "?p + 1 \<le> int (length b)")
    case True
    have lo: "0 \<le> ?p + 1" using d(4) by simp
    have sh: "int (length (pending ?s))
        + (if int (length b) > max_buffer_length r then 0
           else int (length b) - (?p + 1)) < n"
      using short res nf by simp
    from read_short [OF b lo True n d(2) sh] ad show ?thesis by blast
  next
    case False
    then have gt: "int (length b) < ?p + 1" by simp
    have pe: "pending ?s = []" using d(5) gt by simp
    let ?m = "n - (int (length b) - (?p + 1))"
    have ne: "int (length b) \<noteq> ?p + 1" and lt: "int (length b) - (?p + 1) < n"
      and m: "0 \<le> ?m" and sh: "int (length (pending ?s)) < ?m"
      using gt n pe by simp_all
    show ?thesis
      by (simp add: read_straddle [OF n b nf ne lt] stream_read_remote_short [OF ad m sh])
  qed
qed


lemma coherentD:
  assumes "coherent e res r"
  obtains b where "buffer r = Some b" "resource_of e (rkind r) (video_loc r) = Some res"
    "int (length b) > max_buffer_length r \<or> synced res r"
  using assms by (auto simp: coherent_def split: option.splits)

lemma coherent_read:
  assumes co: "coherent e res r" and n: "0 \<le> n" and rd: "read r n = (Inr d, r', evs)"
  shows "coherent e res r'"
proof -
  from co obtain b where b: "buffer r = Some b"
    and rs: "resource_of e (rkind r) (video_loc r) = Some res"
    and st: "int (length b) > max_buffer_length r \<or> synced res r"
    by (rule coherentD)
  show ?thesis
  proof (cases "int (length b) > max_buffer_length r")
    case True
    show ?thesis using rd b rs True
      by (auto simp: read_full [OF n b True] coherent_def split: prod.splits)
  next
    case False
    then have nf: "int (length b) \<le> max_buffer_length r" and sy: "synced res r"
      using st by auto
    show ?thesis
    proof (cases "rkind r = LocalFile \<or> buffer_pointer r + 1 + n \<le> int (length res)")
      case True
      from read_synced [OF sy b nf n True] rd obtain b' where
        "synced res r'" "buffer r' = Some b'" "rkind r' = rkind r"
        "video_loc r' = video_loc r" "max_buffer_length r' = max_buffer_length r"
        by auto
      then show ?thesis using rs by (simp add: coherent_def)
    next
      case False
      then have rk: "rkind r = RemoteFile"
        and sh: "\<not> buffer_pointer r + 1 + n \<le> int (length res)"
        by (cases "rkind r"; simp)+
      from read_remote_short_synced [OF sy b nf rk n sh] rd show ?thesis by auto
    qed
  qed
qed

lemma coherent_refresh:
  assumes co: "coherent e res r" and rf: "refresh e r = (Inr u, r', evs)"
  shows "coherent e res r'"
proof -
  from co obtain b where b: "buffer r = Some b"
    and rs: "resource_of e (rkind r) (video_loc r) = Some res"
    and st: "int (length b) > max_buffer_length r \<or> synced res r"
    by (rule coherentD)
  show ?thesis
  proof (cases "int (length b) > max_buffer_length r")
    case True
    from open_stream_resource [OF rs] obtain a where
      os: "open_stream e (rkind r) (video_loc r) =
        (Inr \<lparr>adapter = rkind r, pending = res, is_closed = False\<rparr>, a,
         [case rkind r of LocalFile \<Rightarrow> FileOpen (video_loc r)
          | RemoteFile \<Rightarrow> HttpGet (video_loc r)])"
      by blast
    have r': "r' = (set_response a (r\<lparr>stream := stream_close (stream r)\<rparr>))
        \<lparr>stream := \<lparr>adapter = rkind r, pending = res, is_closed = False\<rparr>,
         buffer := Some [], buffer_pointer := - 1\<rparr>"
      using rf by (simp add: refresh_reopen [OF b True] os)
    have "synced res r'"
      by (rule fresh_synced) (simp_all add: r')
    then show ?thesis using rs by (simp add: coherent_def r')
  next
    case False
    then have nf: "int (length b) \<le> max_buffer_length r" and sy: "synced res r"
      using st by auto
    have r': "r' = r\<lparr>buffer_pointer := - 1\<rparr>"
      using rf by (simp add: refresh_keep [OF b nf])
    note d = syncedD [OF sy b]
    have "synced res r'"
      by (rule syncedI [where b = b]) (use d b in \<open>simp_all add: r'\<close>)
    then show ?thesis using rs b by (simp add: coherent_def r')
  qed
qed

lemma coherent_run:
  assumes "coherent e res r" and "list_all call_nonneg cs"
    and "run e r cs = (Inr outs, r', evs)"
  shows "coherent e res r'"
  using assms
proof (induction cs arbitrary: r outs evs)
  case Nil
  then show ?case by simp
next
  case (Cons c cs)
  show ?case
  proof (cases c)
    case (Read n)
    then have n: "0 \<le> n" using Cons.prems(2) by simp
    from Cons.prems(3) Read obtain d r1 evs1 outs1 evs2 where
      rd: "read r n = (Inr d, r1, evs1)" and rn: "run e r1 cs = (Inr outs1, r', evs2)"
      by (auto split: prod.splits sum.splits)
    from coherent_read [OF Cons.prems(1) n rd] have "coherent e res r1" .
    from Cons.IH [OF this _ rn] Cons.prems(2) show ?thesis by simp
  next
    case Refresh
    from Cons.prems(3) Refresh obtain u r1 evs1 evs2 where
      rf: "refresh e r = (Inr u, r1, evs1)" and rn: "run e r1 cs = (Inr outs, r', evs2)"
      by (auto split: prod.splits sum.splits)
    from coherent_refresh [OF Cons.prems(1) rf] have "coherent e res r1" .
    from Cons.IH [OF this _ rn] Cons.prems(2) show ?thesis by simp
  qed
qed


lemma coherent_init:
  assumes "FileVideoReader_init e loc cap = (Inr r, evs)
         \<or> RemoteFileReader_init e loc cap = (Inr r, evs)"
  shows "\<exists>res. coherent e res r
    \<and> stream r = \<lparr>adapter = rkind r, pending = res, is_closed = False\<rparr>
    \<and> buffer r = Some [] \<and> buffer_pointer r = - 1"
proof -
  from init_fresh [OF assms] obtain res where
    rs: "resource_of e (rkind r) (video_loc r) = Some res"
    and st: "stream r = \<lparr>adapter = rkind r, pending = res, is_closed = False\<rparr>"
    and b: "buffer r = Some []" and p: "buffer_pointer r = - 1"
    by blast
  have "synced res r" by (rule fresh_synced [OF st b p])
  then have "coherent e res r" using rs b by (simp add: coherent_def)
  then show ?thesis using st b p by blast
qed

lemma read_rewound:
  assumes b: "buffer r = Some b" and nf: "int (length b) \<le> max_buffer_length r"
    and p: "buffer_pointer r = - 1" and op: "\<not> is_closed (stream r)"
    and k: "0 \<le> k" "k \<le> int (length b)"
  shows "\<exists>r2 evs2. read r k = (Inr (take (nat k) b), r2, evs2)
      \<and> stream r2 = stream r \<and> buffer r2 = buffer r \<and> buffer_pointer r2 = k - 1
      \<and> (b \<noteq> [] \<longrightarrow> evs2 = [])"
proof (cases "b = []")
  case True
  then have k0: "k = 0" using k by simp
  have fr: "int (length b) = buffer_pointer r + 1" using True p by simp
  have e: "adapter (stream r) = LocalFile \<or> nat k \<le> length (pending (stream r))"
    using k0 by simp
  have rd: "read r k = (Inr [], r\<lparr>stream := stream r, buffer := Some b,
      buffer_pointer := buffer_pointer r + k\<rparr>, [SrcRead k])"
    unfolding read_frontier [OF k(1) b nf fr] stream_read_exact [OF op k(1) e]
    by (simp add: k0 True)
  show ?thesis unfolding rd using True b p k0 by simp
next
  case False
  then have ne: "int (length b) \<noteq> buffer_pointer r + 1" using p by simp
  have le: "k \<le> int (length b) - (buffer_pointer r + 1)" using k p by simp
  show ?thesis
    using False p k
    by (simp add: read_inside [OF k(1) b nf ne le] py_slice_nonneg)
qed

lemma stream_read_adapter:
  "stream_read s m = (out, s') \<Longrightarrow> adapter s' = adapter s \<and> is_closed s' = is_closed s"
  by (auto simp: stream_read_def split: kind.splits if_splits)

lemma stream_read_default_adapter:
  "stream_read_default s = (out, s') \<Longrightarrow> adapter s' = adapter s \<and> is_closed s' = is_closed s"
  by (auto simp: stream_read_default_def dest: stream_read_adapter split: kind.splits)

lemma stream_read_default_file_drains:
  "adapter s = LocalFile \<Longrightarrow> stream_read_default s = (out, s') \<Longrightarrow> pending s = [] \<Longrightarrow>
   pending s' = []"
  by (auto simp: stream_read_default_def stream_read_def split: if_splits)

lemma stream_read_empty:
  "stream_read s m = (out, s') \<Longrightarrow> pending s = [] \<Longrightarrow> pending s' = []"
  by (auto simp: stream_read_def split: kind.splits if_splits)

lemma stream_read_shape:
  assumes "\<not> is_closed s" and "0 \<le> m" and "stream_read s m = (out, s')"
  shows "(out = Inr (take (nat m) (pending s)) \<and> s' = s\<lparr>pending := drop (nat m) (pending s)\<rparr>
          \<and> (adapter s = RemoteFile \<longrightarrow> nat m \<le> length (pending s)))
       \<or> (out = Inl StopIteration \<and> s' = s\<lparr>pending := []\<rparr> \<and> adapter s = RemoteFile)"
  using assms by (auto simp: stream_read_def split: kind.splits if_splits)

lemma settled_read:
  assumes se: "settled e r" and rd: "read r n = (out, r', evs)"
  shows "settled e r'"
proof (cases "buffer r")
  case None
  show ?thesis
  proof (cases "n < 0")
    case True
    obtain o1 s1 where sr: "stream_read_default (stream r) = (o1, s1)" by (metis surj_pair)
    from stream_read_default_adapter [OF sr] show ?thesis
      using se rd None by (auto simp: read_neg [OF True] sr settled_def)
  next
    case False
    then show ?thesis using se rd None by (simp add: read_closed)
  qed
next
  case (Some b)
  let ?p = "buffer_pointer r"
  let ?s = "stream r"
  from se Some have rs: "resource_of e (rkind r) (video_loc r) \<noteq> None"
    and ad: "adapter ?s = rkind r" and op: "\<not> is_closed ?s" and p: "- 1 \<le> ?p"
    and ov: "int (length b) < ?p + 1 \<Longrightarrow> rkind r = LocalFile \<and> pending ?s = []"
    by (auto simp: settled_def)
  consider (neg) "n < 0"
    | (full) "0 \<le> n" "int (length b) > max_buffer_length r"
    | (frontier) "0 \<le> n" "int (length b) \<le> max_buffer_length r" "int (length b) = ?p + 1"
    | (inside) "0 \<le> n" "int (length b) \<le> max_buffer_length r" "int (length b) \<noteq> ?p + 1"
        "n \<le> int (length b) - (?p + 1)"
    | (straddle) "0 \<le> n" "int (length b) \<le> max_buffer_length r" "int (length b) \<noteq> ?p + 1"
        "int (length b) - (?p + 1) < n"
    by linarith
  then show ?thesis
  proof cases
    case neg
    obtain o1 s1 where sr: "stream_read_default ?s = (o1, s1)" by (metis surj_pair)
    have r': "r' = r\<lparr>stream := s1\<rparr>" using rd by (simp add: read_neg [OF neg] sr)
    have "pending s1 = []" if "int (length b) < ?p + 1"
      using stream_read_default_file_drains [OF _ sr] ov [OF that] ad by simp
    then show ?thesis
      using stream_read_default_adapter [OF sr] rs ad op p ov Some
      by (auto simp: settled_def r')
  next
    case full
    obtain o1 s1 where sr: "stream_read ?s n = (o1, s1)" by (metis surj_pair)
    have r': "r' = r\<lparr>stream := s1\<rparr>" using rd by (simp add: read_full [OF full(1) Some full(2)] sr)
    have "pending s1 = []" if "int (length b) < ?p + 1"
      using stream_read_empty [OF sr] ov [OF that] by simp
    then show ?thesis
      using stream_read_adapter [OF sr] rs ad op p ov Some
      by (auto simp: settled_def r')
  next
    case inside
    have r': "r' = r\<lparr>buffer_pointer := ?p + n\<rparr>"
      using rd by (simp add: read_inside [OF inside(1) Some inside(2,3,4)])
    show ?thesis using rs ad op p Some inside by (auto simp: settled_def r')
  next
    case frontier
    obtain o1 s1 where sr: "stream_read ?s n = (o1, s1)" by (metis surj_pair)
    from stream_read_shape [OF op frontier(1) sr] show ?thesis
    proof
      assume a: "o1 = Inr (take (nat n) (pending ?s))
          \<and> s1 = ?s\<lparr>pending := drop (nat n) (pending ?s)\<rparr>
          \<and> (adapter ?s = RemoteFile \<longrightarrow> nat n \<le> length (pending ?s))"
      have r': "r' = r\<lparr>stream := ?s\<lparr>pending := drop (nat n) (pending ?s)\<rparr>,
          buffer := Some (b @ take (nat n) (pending ?s)), buffer_pointer := ?p + n\<rparr>"
        using rd a by (simp add: read_frontier [OF frontier(1) Some frontier(2,3)] sr)
      have sh: "length (pending ?s) < nat n"
        if "int (length (b @ take (nat n) (pending ?s))) < ?p + n + 1"
        using that frontier by (simp add: min_def split: if_splits)
      have fl: "rkind r = LocalFile" if "length (pending ?s) < nat n"
        using that a ad by (cases "rkind r") auto
      show ?thesis
        using rs ad op p frontier(1) sh fl by (auto simp: settled_def r')
    next
      assume a: "o1 = Inl StopIteration \<and> s1 = ?s\<lparr>pending := []\<rparr> \<and> adapter ?s = RemoteFile"
      have r': "r' = r\<lparr>stream := ?s\<lparr>pending := []\<rparr>\<rparr>"
        using rd a by (simp add: read_frontier [OF frontier(1) Some frontier(2,3)] sr)
      show ?thesis using rs ad op p Some frontier by (auto simp: settled_def r')
    qed
  next
    case straddle
    let ?m = "n - (int (length b) - (?p + 1))"
    have m: "0 \<le> ?m" using straddle by linarith
    obtain o1 s1 where sr: "stream_read ?s ?m = (o1, s1)" by (metis surj_pair)
    from stream_read_shape [OF op m sr] show ?thesis
    proof
      assume a: "o1 = Inr (take (nat ?m) (pending ?s))
          \<and> s1 = ?s\<lparr>pending := drop (nat ?m) (pending ?s)\<rparr>
          \<and> (adapter ?s = RemoteFile \<longrightarrow> nat ?m \<le> length (pending ?s))"
      have r': "r' = r\<lparr>stream := ?s\<lparr>pending := drop (nat ?m) (pending ?s)\<rparr>,
          buffer := Some (b @ take (nat ?m) (pending ?s)), buffer_pointer := ?p + n\<rparr>"
        using rd a by (simp add: read_straddle [OF straddle(1) Some straddle(2,3,4)] sr)
      have sh: "length (pending ?s) < nat ?m"
        if "int (length (b @ take (nat ?m) (pending ?s))) < ?p + n + 1"
        using that m by (simp add: min_def split: if_splits)
      have fl: "rkind r = LocalFile" if "length (pending ?s) < nat ?m"
        using that a ad by (cases "rkind r") auto
      show ?thesis
        using rs ad op p straddle(1) sh fl by (auto simp: settled_def r')
    next
      assume a: "o1 = Inl StopIteration \<and> s1 = ?s\<lparr>pending := []\<rparr> \<and> adapter ?s = RemoteFile"
      have r': "r' = r\<lparr>stream := ?s\<lparr>pending := []\<rparr>\<rparr>"
        using rd a by (simp add: read_straddle [OF straddle(1) Some straddle(2,3,4)] sr)
      show ?thesis using rs ad op p Some ov a by (auto simp: settled_def r')
    qed
  qed
qed


lemma settled_refresh:
  assumes se: "settled e r" and rf: "refresh e r = (u, r', evs)"
  shows "settled e r'"
proof (cases "buffer r")
  case None
  then show ?thesis using se rf by (simp add: refresh_closed)
next
  case (Some b)
  from se obtain res where rs: "resource_of e (rkind r) (video_loc r) = Some res"
    by (auto simp: settled_def)
  show ?thesis
  proof (cases "int (length b) > max_buffer_length r")
    case True
    from open_stream_resource [OF rs] obtain a where
      os: "open_stream e (rkind r) (video_loc r) =
        (Inr \<lparr>adapter = rkind r, pending = res, is_closed = False\<rparr>, a,
         [case rkind r of LocalFile \<Rightarrow> FileOpen (video_loc r)
          | RemoteFile \<Rightarrow> HttpGet (video_loc r)])"
      by blast
    have r': "r' = (set_response a (r\<lparr>stream := stream_close (stream r)\<rparr>))
        \<lparr>stream := \<lparr>adapter = rkind r, pending = res, is_closed = False\<rparr>,
         buffer := Some [], buffer_pointer := - 1\<rparr>"
      using rf by (simp add: refresh_reopen [OF Some True] os)
    show ?thesis using rs by (simp add: settled_def r')
  next
    case False
    then have nf: "int (length b) \<le> max_buffer_length r" by simp
    have r': "r' = r\<lparr>buffer_pointer := - 1\<rparr>"
      using rf by (simp add: refresh_keep [OF Some nf])
    show ?thesis using se Some by (auto simp: settled_def r')
  qed
qed

lemma settled_close:
  assumes se: "settled e r" and cl: "close r = (u, r', evs)"
  shows "settled e r'"
  using assms
  by (cases "adapter (stream r)") (auto simp: settled_def close_def stream_close_def)

lemma settled_init:
  assumes "FileVideoReader_init e loc cap = (Inr r, evs)
         \<or> RemoteFileReader_init e loc cap = (Inr r, evs)"
  shows "settled e r"
  using init_fresh [OF assms] by (auto simp: settled_def)

lemma reachable_settled: "reachable e r \<Longrightarrow> settled e r"
proof (induction rule: reachable.induct)
  case (construct_file loc cap r evs)
  then show ?case using settled_init by blast
next
  case (construct_remote loc cap r evs)
  then show ?case using settled_init by blast
next
  case (after_read r n out r' evs)
  then show ?case using settled_read by blast
next
  case (after_refresh r u r' evs)
  then show ?case using settled_refresh by blast
next
  case (after_close r u r' evs)
  then show ?case using settled_close by blast
qed

lemma read_keeps:
  "read r n = (out, r', evs) \<Longrightarrow>
   rkind r' = rkind r \<and> video_loc r' = video_loc r \<and> max_buffer_length r' = max_buffer_length r"
  by (auto simp: read_def Let_def split: if_splits option.splits prod.splits sum.splits)

lemma refresh_keeps:
  assumes "refresh e r = (out, r', evs)"
  shows "rkind r' = rkind r \<and> video_loc r' = video_loc r
    \<and> max_buffer_length r' = max_buffer_length r"
proof (cases "buffer r")
  case None
  then show ?thesis using assms by (simp add: refresh_closed)
next
  case (Some b)
  show ?thesis
  proof (cases "int (length b) > max_buffer_length r")
    case True
    show ?thesis using assms
      by (auto simp: refresh_reopen [OF Some True] split: prod.splits sum.splits)
  next
    case False
    then have "int (length b) \<le> max_buffer_length r" by simp
    from refresh_keep [OF Some this] assms show ?thesis by auto
  qed
qed

lemma run_keeps:
  "run e r cs = (out, r', evs) \<Longrightarrow>
   rkind r' = rkind r \<and> video_loc r' = video_loc r \<and> max_buffer_length r' = max_buffer_length r"
proof (induction cs arbitrary: r out r' evs)
  case Nil
  then show ?case by simp
next
  case (Cons c cs)
  show ?case
  proof (cases c)
    case (Read n)
    obtain o1 r1 e1 where rd: "read r n = (o1, r1, e1)" by (metis prod_cases3)
    note k = read_keeps [OF rd]
    show ?thesis
    proof (cases o1)
      case (Inl err)
      then show ?thesis using Cons.prems Read rd k by simp
    next
      case (Inr d)
      obtain o2 r2 e2 where rn: "run e r1 cs = (o2, r2, e2)" by (metis prod_cases3)
      from Cons.IH [OF rn] k have "rkind r2 = rkind r \<and> video_loc r2 = video_loc r
        \<and> max_buffer_length r2 = max_buffer_length r" by simp
      then show ?thesis using Cons.prems Read rd Inr rn by (cases o2) auto
    qed
  next
    case Refresh
    obtain o1 r1 e1 where rf: "refresh e r = (o1, r1, e1)" by (metis prod_cases3)
    note k = refresh_keeps [OF rf]
    show ?thesis
    proof (cases o1)
      case (Inl err)
      then show ?thesis using Cons.prems Refresh rf k by simp
    next
      case (Inr d)
      obtain o2 r2 e2 where rn: "run e r1 cs = (o2, r2, e2)" by (metis prod_cases3)
      from Cons.IH [OF rn] k have "rkind r2 = rkind r \<and> video_loc r2 = video_loc r
        \<and> max_buffer_length r2 = max_buffer_length r" by simp
      then show ?thesis using Cons.prems Refresh rf Inr rn by auto
    qed
  qed
qed

lemma faithful_stream_read:
  assumes op: "\<not> is_closed s" and m: "0 \<le> m" and sr: "stream_read s m = (out, s')"
    and bp: "b @ pending s = res \<or> (pending s = [] \<and> take (length b) res = b)"
  shows "adapter s' = adapter s" and "\<not> is_closed s'"
    and "out = Inl err \<Longrightarrow> pending s' = [] \<and> take (length b) res = b"
    and "out = Inr d \<Longrightarrow>
      (b @ d) @ pending s' = res \<or> (pending s' = [] \<and> take (length (b @ d)) res = b @ d)"
proof -
  from stream_read_adapter [OF sr] op show "adapter s' = adapter s" "\<not> is_closed s'"
    by simp_all
  have pre: "take (length b) res = b" using bp by auto
  note sh = stream_read_shape [OF op m sr]
  show "pending s' = [] \<and> take (length b) res = b" if "out = Inl err"
    using sh that pre by auto
  show "(b @ d) @ pending s' = res \<or> (pending s' = [] \<and> take (length (b @ d)) res = b @ d)"
    if "out = Inr d"
  proof -
    from sh that have d: "d = take (nat m) (pending s)"
      and p': "pending s' = drop (nat m) (pending s)" by auto
    from bp show ?thesis
    proof
      assume "b @ pending s = res"
      then have "(b @ d) @ pending s' = res" by (simp add: d p')
      then show ?thesis ..
    next
      assume "pending s = [] \<and> take (length b) res = b"
      then show ?thesis by (simp add: d p')
    qed
  qed
qed

lemma faithfulI:
  "resource_of e (rkind r) (video_loc r) = Some res \<Longrightarrow> buffer r = Some b \<Longrightarrow>
   (int (length b) \<le> max_buffer_length r \<Longrightarrow>
      adapter (stream r) = rkind r \<and> \<not> is_closed (stream r)
      \<and> (b @ pending (stream r) = res \<or> (pending (stream r) = [] \<and> take (length b) res = b)))
   \<Longrightarrow> faithful e res r"
  by (auto simp: faithful_def)

lemma faithfulD:
  assumes "faithful e res r"
  obtains b where "buffer r = Some b" "resource_of e (rkind r) (video_loc r) = Some res"
    "int (length b) \<le> max_buffer_length r \<Longrightarrow>
       adapter (stream r) = rkind r \<and> \<not> is_closed (stream r)
       \<and> (b @ pending (stream r) = res \<or> (pending (stream r) = [] \<and> take (length b) res = b))"
  using assms by (auto simp: faithful_def split: option.splits)

lemma faithful_grow:
  assumes f: "faithful e res r" and b: "buffer r = Some b"
    and nf: "int (length b) \<le> max_buffer_length r"
    and m: "0 \<le> m" and sr: "stream_read (stream r) m = (out, s')"
  shows "out = Inl err \<Longrightarrow> faithful e res (r\<lparr>stream := s'\<rparr>)"
    and "out = Inr d \<Longrightarrow>
      faithful e res (r\<lparr>stream := s', buffer := Some (b @ d), buffer_pointer := q\<rparr>)"
proof -
  from f b nf have rs: "resource_of e (rkind r) (video_loc r) = Some res"
    and ad: "adapter (stream r) = rkind r" and op: "\<not> is_closed (stream r)"
    and bp: "b @ pending (stream r) = res \<or> (pending (stream r) = [] \<and> take (length b) res = b)"
    by (auto simp: faithful_def)
  note fs = faithful_stream_read [OF op m sr bp]
  show "faithful e res (r\<lparr>stream := s'\<rparr>)" if "out = Inl err"
    by (rule faithfulI [where b = b]) (use rs b ad fs(1,2) fs(3) [OF that] in simp_all)
  show "faithful e res (r\<lparr>stream := s', buffer := Some (b @ d), buffer_pointer := q\<rparr>)"
    if "out = Inr d"
    by (rule faithfulI [where b = "b @ d"]) (use rs ad fs(1,2) fs(4) [OF that] in simp_all)
qed

lemma faithful_read:
  assumes f: "faithful e res r" and n: "0 \<le> n"
  shows "faithful e res (fst (snd (read r n)))"
proof -
  from f obtain b where b: "buffer r = Some b"
    and rs: "resource_of e (rkind r) (video_loc r) = Some res"
    by (rule faithfulD)
  show ?thesis
  proof (cases "int (length b) > max_buffer_length r")
    case True
    obtain out s' where sr: "stream_read (stream r) n = (out, s')" by (cases "stream_read (stream r) n")
    have "faithful e res (r\<lparr>stream := s'\<rparr>)"
      using rs b True by (simp add: faithful_def)
    then show ?thesis by (simp add: read_full [OF n b True] sr)
  next
    case False
    then have nf: "int (length b) \<le> max_buffer_length r" by simp
    show ?thesis
    proof (cases "int (length b) = buffer_pointer r + 1")
      case True
      obtain out s' where sr: "stream_read (stream r) n = (out, s')"
        by (cases "stream_read (stream r) n")
      note g = faithful_grow [OF f b nf n sr]
      show ?thesis
      proof (cases out)
        case (Inl err)
        from g(1) [OF Inl] show ?thesis by (simp add: read_frontier [OF n b nf True] sr Inl)
      next
        case (Inr d)
        from g(2) [OF Inr] show ?thesis by (simp add: read_frontier [OF n b nf True] sr Inr)
      qed
    next
      case ne: False
      show ?thesis
      proof (cases "n \<le> int (length b) - (buffer_pointer r + 1)")
        case True
        have "faithful e res (r\<lparr>buffer_pointer := buffer_pointer r + n\<rparr>)"
          using f b by (simp add: faithful_def)
        then show ?thesis by (simp add: read_inside [OF n b nf ne True])
      next
        case False
        then have lt: "int (length b) - (buffer_pointer r + 1) < n" by simp
        let ?m = "n - (int (length b) - (buffer_pointer r + 1))"
        have m: "0 \<le> ?m" using lt by simp
        obtain out s' where sr: "stream_read (stream r) ?m = (out, s')"
          by (cases "stream_read (stream r) ?m")
        note g = faithful_grow [OF f b nf m sr]
        show ?thesis
        proof (cases out)
          case (Inl err)
          from g(1) [OF Inl] show ?thesis by (simp add: read_straddle [OF n b nf ne lt] sr Inl)
        next
          case (Inr d)
          from g(2) [OF Inr] show ?thesis by (simp add: read_straddle [OF n b nf ne lt] sr Inr)
        qed
      qed
    qed
  qed
qed

lemma faithful_refresh:
  assumes f: "faithful e res r"
  shows "faithful e res (fst (snd (refresh e r)))"
proof -
  from f obtain b where b: "buffer r = Some b"
    and rs: "resource_of e (rkind r) (video_loc r) = Some res"
    by (rule faithfulD)
  show ?thesis
  proof (cases "int (length b) > max_buffer_length r")
    case True
    from open_stream_resource [OF rs] obtain a where
      os: "open_stream e (rkind r) (video_loc r) =
        (Inr \<lparr>adapter = rkind r, pending = res, is_closed = False\<rparr>, a,
         [case rkind r of LocalFile \<Rightarrow> FileOpen (video_loc r)
          | RemoteFile \<Rightarrow> HttpGet (video_loc r)])"
      by blast
    show ?thesis
      using rs by (simp add: refresh_reopen [OF b True] os faithful_def)
  next
    case False
    then have nf: "int (length b) \<le> max_buffer_length r" by simp
    show ?thesis using f b by (simp add: refresh_keep [OF b nf] faithful_def)
  qed
qed

lemma faithful_after_calls:
  "faithful e res r \<Longrightarrow> list_all call_nonneg cs \<Longrightarrow> faithful e res (after_calls e r cs)"
proof (induction cs arbitrary: r)
  case Nil
  then show ?case by simp
next
  case (Cons c cs)
  show ?case
  proof (cases c)
    case (Read n)
    then have "0 \<le> n" using Cons.prems(2) by simp
    from faithful_read [OF Cons.prems(1) this] Cons.IH Cons.prems(2) Read show ?thesis by simp
  next
    case Refresh
    from faithful_refresh [OF Cons.prems(1)] Cons.IH Cons.prems(2) Refresh show ?thesis by simp
  qed
qed

lemma faithful_init:
  assumes "FileVideoReader_init e loc cap = (Inr r, evs)
         \<or> RemoteFileReader_init e loc cap = (Inr r, evs)"
  shows "\<exists>res. faithful e res r
    \<and> stream r = \<lparr>adapter = rkind r, pending = res, is_closed = False\<rparr>
    \<and> buffer r = Some [] \<and> buffer_pointer r = - 1"
proof -
  from init_fresh [OF assms] obtain res where
    rs: "resource_of e (rkind r) (video_loc r) = Some res"
    and st: "stream r = \<lparr>adapter = rkind r, pending = res, is_closed = False\<rparr>"
    and b: "buffer r = Some []" and p: "buffer_pointer r = - 1"
    by blast
  have "faithful e res r" using rs st b by (simp add: faithful_def)
  then show ?thesis using st b p by blast
qed

lemma read_fresh_stream_short:
  assumes st: "stream r = \<lparr>adapter = RemoteFile, pending = res, is_closed = False\<rparr>"
    and b: "buffer r = Some []" and p: "buffer_pointer r = - 1"
    and n: "int (length res) < n"
  shows "fst (read r n) = Inl StopIteration"
proof -
  have n0: "0 \<le> n" using n by simp
  have sr: "stream_read (stream r) n = (Inl StopIteration, (stream r)\<lparr>pending := []\<rparr>)"
    by (rule stream_read_remote_short) (use st n n0 in simp_all)
  show ?thesis
  proof (cases "int (length ([] :: byte list)) > max_buffer_length r")
    case True
    show ?thesis by (simp add: read_full [OF n0 b True] sr)
  next
    case False
    then have nf: "int (length ([] :: byte list)) \<le> max_buffer_length r" by simp
    have fr: "int (length ([] :: byte list)) = buffer_pointer r + 1" using p by simp
    show ?thesis by (simp add: read_frontier [OF n0 b nf fr] sr)
  qed
qed

lemma read_fresh_stream_neg:
  assumes st: "stream r = \<lparr>adapter = LocalFile, pending = res, is_closed = False\<rparr>"
    and n: "n < 0"
  shows "fst (read r n) = Inr res"
  by (simp add: read_neg [OF n] st stream_read_default_def stream_read_def)






























section \<open>Reading in sequence\<close>

text \<open>
  C1. Construct a reader (local or remote) and let it make any calls \<open>read(n)\<close>,
  \<open>n \<ge> 0\<close>, and \<open>refresh()\<close> that returned: none, for the freshly constructed reader, whose
  reads are all at the frontier of the buffer; after a \<open>refresh()\<close> the cursor stands at
  the start of a buffer that holds bytes, so that the reads that follow are served from the
  buffer, straddle buffer and source, or are at the frontier. Let the buffer not have
  overflowed. Then for every sequence of \<open>read(n)\<close> calls with each \<open>n \<ge> 0\<close>, where the
  logical position (cursor plus one; \<open>0\<close> on the fresh reader) plus the lengths asked is at
  most the capacity and at most the length of the resource (so that the source can return
  the number of bytes asked on each read): every call succeeds and returns exactly \<open>n\<close>
  bytes, and the concatenation of the byte strings returned is what the resource holds from
  the logical position on, for the total length; from offset \<open>0\<close> on the fresh reader.
\<close>

theorem read_composition:
  assumes ini: "FileVideoReader_init e loc cap = (Inr r0, evs0)
         \<or> RemoteFileReader_init e loc cap = (Inr r0, evs0)"
    and res: "resource_of e (rkind r0) loc = Some res"
    and calls: "list_all call_nonneg cs"
    and rn: "run e r0 cs = (Inr outs0, r1, evs1)"
    and b: "buffer r1 = Some b" and nf: "int (length b) \<le> cap"
    and nn: "\<forall>n\<in>set ns. 0 \<le> n"
    and cap: "buffer_pointer r1 + 1 + sum_list ns \<le> cap"
    and ava: "buffer_pointer r1 + 1 + sum_list ns \<le> int (length res)"
  shows "\<exists>r2 evs outs. run e r1 (map Read ns) = (Inr outs, r2, evs)
      \<and> concat outs = take (nat (sum_list ns)) (drop (nat (buffer_pointer r1 + 1)) res)
      \<and> map length outs = map nat ns"
proof -
  from coherent_init [OF ini] obtain res' where co0: "coherent e res' r0" by blast
  from init_fresh [OF ini] have vl: "video_loc r0 = loc" and cp0: "max_buffer_length r0 = cap"
    by auto
  have "resource_of e (rkind r0) (video_loc r0) = Some res'"
    using co0 by (simp add: coherent_def)
  then have rr: "res' = res" using res vl by simp
  from coherent_run [OF co0 calls rn] have co1: "coherent e res r1" unfolding rr .
  have cp1: "max_buffer_length r1 = cap" using run_keeps [OF rn] cp0 by simp
  have sy: "synced res r1" using co1 b nf cp1 by (auto simp: coherent_def)
  show ?thesis
    by (rule run_reads_synced [OF sy b _ nn]) (use nf cap ava cp1 in simp_all)
qed

theorem read_composition_witness:
  "\<exists>r0 evs0 outs0 r1 evs1 r2 evs outs.
     RemoteFileReader_init (site_env [] [1, 2, 3, 4, 5, 6]) ''http://h/v.mp4'' 5 = (Inr r0, evs0)
     \<and> run (site_env [] [1, 2, 3, 4, 5, 6]) r0 [Read 3, Refresh] = (Inr outs0, r1, evs1)
     \<and> buffer r1 = Some [1, 2, 3] \<and> buffer_pointer r1 = - 1
     \<and> run (site_env [] [1, 2, 3, 4, 5, 6]) r1 (map Read [2, 2, 1]) = (Inr outs, r2, evs)
     \<and> concat outs = [1, 2, 3, 4, 5] \<and> map length outs = [2, 2, 1]"
proof -
  let ?e = "site_env [] [1, 2, 3, 4, 5, 6]"
  obtain r0 evs0 where ini: "RemoteFileReader_init ?e ''http://h/v.mp4'' 5 = (Inr r0, evs0)"
    and rk: "rkind r0 = RemoteFile"
    by (simp add: model_defs)
  obtain outs0 r1 evs1 where
    rn: "run ?e r0 [Read 3, Refresh] = (Inr outs0, r1, evs1)"
    and b: "buffer r1 = Some [1, 2, 3]" and p: "buffer_pointer r1 = - 1"
    using ini by (auto simp: model_defs)
  have res: "resource_of ?e (rkind r0) ''http://h/v.mp4'' = Some [1, 2, 3, 4, 5, 6]"
    by (simp add: rk resource_of_def site_env_def)
  have calls: "list_all call_nonneg [Read 3, Refresh]" by simp
  have nf: "int (length [1, 2, 3 :: byte]) \<le> 5" by simp
  have nn: "\<forall>n\<in>set [2, 2, 1 :: int]. 0 \<le> n" by simp
  have c1: "buffer_pointer r1 + 1 + sum_list [2, 2, 1] \<le> 5" using p by simp
  have c2: "buffer_pointer r1 + 1 + sum_list [2, 2, 1] \<le> int (length [1, 2, 3, 4, 5, 6 :: byte])"
    using p by simp
  from read_composition [OF disjI2 [OF ini] res calls rn b nf nn c1 c2]
  obtain r2 evs outs where "run ?e r1 (map Read [2, 2, 1]) = (Inr outs, r2, evs)"
    and "concat outs = take (nat (sum_list [2, 2, 1]))
           (drop (nat (buffer_pointer r1 + 1)) [1, 2, 3, 4, 5, 6])"
    and "map length outs = map nat [2, 2, 1]"
    by blast
  then show ?thesis using ini rn b p by (auto simp: numeral_eq_Suc)
qed

section \<open>Construction\<close>

text \<open>
  C9. A local-file reader on a path that does not exist, or whose file is empty, is not
  constructed: the constructor raises before the base constructor runs, so no stream is
  opened and no buffer exists. A remote reader on a location that starts with neither
  \<open>http\<close> nor \<open>ftp\<close> is not constructed either: the constructor exits with code \<open>-1\<close>
  and makes no external call at all, in particular no request.
\<close>

theorem construct_rejects_bad_location:
  assumes "files e loc = None \<or> files e loc = Some []"
    and "\<not> py_startswith url ''http''" and "\<not> py_startswith url ''ftp''"
  shows "fst (FileVideoReader_init e loc cap) = Inl (FileNotExist loc)
       \<and> set (snd (FileVideoReader_init e loc cap)) \<subseteq> {PathExists loc, PathGetSize loc}
       \<and> RemoteFileReader_init e' url cap' = (Inl (SystemExit (- 1)), [])"
  using assms by (auto simp: FileVideoReader_init_def RemoteFileReader_init_def)

theorem construct_rejects_bad_location_witness:
  "(files \<lparr>files = Map.empty, sites = Map.empty\<rparr> ''missing.mp4'' = None
     \<or> files \<lparr>files = Map.empty, sites = Map.empty\<rparr> ''missing.mp4'' = Some [])
   \<and> \<not> py_startswith ''notaurl'' ''http'' \<and> \<not> py_startswith ''notaurl'' ''ftp''
   \<and> fst (FileVideoReader_init \<lparr>files = Map.empty, sites = Map.empty\<rparr> ''missing.mp4''
            MAX_BUFFER_LENGTH) = Inl (FileNotExist ''missing.mp4'')
   \<and> RemoteFileReader_init \<lparr>files = Map.empty, sites = Map.empty\<rparr> ''notaurl''
        MAX_BUFFER_LENGTH = (Inl (SystemExit (- 1)), [])"
proof -
  have h1: "files \<lparr>files = Map.empty, sites = Map.empty\<rparr> ''missing.mp4'' = None
     \<or> files \<lparr>files = Map.empty, sites = Map.empty\<rparr> ''missing.mp4'' = Some []"
    by simp
  have h2: "\<not> py_startswith ''notaurl'' ''http''" and h3: "\<not> py_startswith ''notaurl'' ''ftp''"
    by (simp_all add: py_startswith_def)
  show ?thesis
    using h1 h2 h3
      construct_rejects_bad_location [OF h1 h2 h3, of MAX_BUFFER_LENGTH
        "\<lparr>files = Map.empty, sites = Map.empty\<rparr>" MAX_BUFFER_LENGTH]
    by simp
qed

text \<open>
  C8, at a response that carries \<open>Content-Length: 4\<close>. The lookup subscripts the bound
  method \<open>headers.get\<close>, which raises inside the \<open>try\<close>; the bare \<open>except\<close> swallows it,
  and \<open>total_bytes\<close> stays at \<open>-1\<close> although the header is present and parseable.
\<close>

theorem remote_total_bytes_stays_unknown:
  "map_sum id total_bytes
     (fst (RemoteFileReader_init
        \<lparr>files = Map.empty,
         sites = [''http://h/v.mp4'' \<mapsto>
           \<lparr>status_code = 200, headers = [(''Content-Length'', ''4'')],
            content = [1, 2, 3, 4]\<rparr>]\<rparr>
        ''http://h/v.mp4'' MAX_BUFFER_LENGTH))
   = Inr (- 1)"
  by (simp add: RemoteFileReader_init_def py_startswith_def VideoReader_init_def
      open_stream_def init_total_bytes_def headers_get_subscript_def)

section \<open>Negative lengths\<close>

text \<open>
  C4, at two inputs. \<open>read(n)\<close> with \<open>n < 0\<close> returns \<open>self.stream.read()\<close> and looks
  neither at the buffer nor at the cursor. On a file of four bytes, after \<open>read(2)\<close> and a
  cheap \<open>refresh()\<close>, \<open>read(-1)\<close> returns the last two bytes only: the two buffered bytes
  at the cursor are skipped. On a remote reader \<open>self.stream.read()\<close> takes the adapter's
  default \<open>num_of_byte = 1\<close>, so \<open>read(-1)\<close> on a fresh reader returns one byte of four.
\<close>

theorem negative_read_skips_buffer:
  "map_sum id fst
     (open_and_run (file_env [1, 2, 3, 4]) LocalFile ''v.mp4'' MAX_BUFFER_LENGTH
        [Read 2, Refresh, Read (- 1)]) = Inr [[1, 2], [3, 4]]
   \<and> map_sum id fst
     (open_and_run (site_env [] [1, 2, 3, 4]) RemoteFile ''http://h/v.mp4'' MAX_BUFFER_LENGTH
        [Read (- 1)]) = Inr [[1]]"
  by (simp add: model_defs)

section \<open>Reading past the end of the source\<close>

text \<open>
  C5 as stated fails for the local-file reader: on a file of two bytes, \<open>read(5)\<close> right
  after construction raises nothing and returns the two bytes.
\<close>

theorem file_read_past_end_returns_short:
  "map_sum id fst
     (open_and_run (file_env [1, 2]) LocalFile ''v.mp4'' MAX_BUFFER_LENGTH [Read 5])
   = Inr [[1, 2]]"
  by (simp add: model_defs)

text \<open>
  C5, amended. On a reader that satisfies the cursor invariant and whose stream is open,
  let \<open>read(n)\<close>, \<open>n \<ge> 0\<close>, need more bytes than are left: \<open>n\<close> exceeds the bytes
  pending in the source plus the unread buffered bytes (which count only while the buffer
  has not overflowed). Then the remote reader raises \<open>StopIteration\<close> and leaves buffer and
  cursor as they were; the local-file reader raises nothing and returns fewer than \<open>n\<close>
  bytes.
\<close>

theorem read_past_end:
  assumes b: "buffer r = Some b"
    and lo: "0 \<le> buffer_pointer r + 1" and hi: "buffer_pointer r + 1 \<le> int (length b)"
    and n: "0 \<le> n" and op: "\<not> is_closed (stream r)"
    and short: "int (length (pending (stream r)))
        + (if int (length b) > max_buffer_length r then 0
           else int (length b) - (buffer_pointer r + 1)) < n"
  shows "(adapter (stream r) = RemoteFile \<longrightarrow>
           (\<exists>r' evs. read r n = (Inl StopIteration, r', evs)
              \<and> buffer r' = buffer r \<and> buffer_pointer r' = buffer_pointer r))
       \<and> (adapter (stream r) = LocalFile \<longrightarrow>
           (\<exists>d r' evs. read r n = (Inr d, r', evs) \<and> int (length d) < n))"
  by (rule read_short [OF assms])

theorem read_past_end_witness:
  "fst (read \<lparr>rkind = RemoteFile, video_loc = ''http://h/v.mp4'', max_buffer_length = 10,
         stream = \<lparr>adapter = RemoteFile, pending = [3], is_closed = False\<rparr>,
         response = None, total_bytes = - 1, buffer = Some [1, 2], buffer_pointer = 0\<rparr> 5)
     = Inl StopIteration
   \<and> (\<exists>d r' evs. read \<lparr>rkind = LocalFile, video_loc = ''v.mp4'', max_buffer_length = 10,
         stream = \<lparr>adapter = LocalFile, pending = [3], is_closed = False\<rparr>,
         response = None, total_bytes = 3, buffer = Some [1, 2], buffer_pointer = 0\<rparr> 5
       = (Inr d, r', evs) \<and> int (length d) < 5)"
  using
    read_past_end [of "\<lparr>rkind = RemoteFile, video_loc = ''http://h/v.mp4'',
         max_buffer_length = 10,
         stream = \<lparr>adapter = RemoteFile, pending = [3], is_closed = False\<rparr>,
         response = None, total_bytes = - 1, buffer = Some [1, 2], buffer_pointer = 0\<rparr>"
      "[1, 2]" 5]
    read_past_end [of "\<lparr>rkind = LocalFile, video_loc = ''v.mp4'', max_buffer_length = 10,
         stream = \<lparr>adapter = LocalFile, pending = [3], is_closed = False\<rparr>,
         response = None, total_bytes = 3, buffer = Some [1, 2], buffer_pointer = 0\<rparr>"
      "[1, 2]" 5]
  by auto

section \<open>The cursor invariant\<close>

text \<open>
  C7 as stated fails: a local-file \<open>read\<close> that runs past the end of the file gets fewer
  bytes than it asked for, appends those, and still advances the cursor by the number
  asked. On a file of two bytes, \<open>read(5)\<close> leaves a buffer of two bytes and the cursor
  at \<open>4\<close>.
\<close>

theorem file_read_past_end_breaks_cursor:
  "map_sum id (\<lambda>(outs, r). (buffer r, buffer_pointer r, cursor_invariant r))
     (open_and_run (file_env [1, 2]) LocalFile ''v.mp4'' MAX_BUFFER_LENGTH [Read 5])
   = Inr (Some [1, 2], 4, False)"
  by (simp add: model_defs cursor_invariant_def)

text \<open>
  C7, amended. The invariant \<open>0 \<le> cursor_position + 1 \<le> len(buffer)\<close> holds after
  construction; \<open>refresh()\<close> preserves it, whether it rewinds, reopens or fails to reopen;
  \<open>read(n)\<close> preserves it whenever the call has \<open>n < 0\<close>, raises, or returns exactly
  \<open>n\<close> bytes. Every \<open>read\<close> on a remote adapter is of that kind, so the remote reader
  keeps the invariant under every \<open>read\<close>.
\<close>

theorem cursor_invariant_steps:
  "(FileVideoReader_init e loc cap = (Inr r0, evs0)
      \<or> RemoteFileReader_init e loc cap = (Inr r0, evs0) \<longrightarrow> cursor_invariant r0)
   \<and> (cursor_invariant r \<and> refresh e r = (u, r1, evs1) \<longrightarrow> cursor_invariant r1)
   \<and> (cursor_invariant r \<and> read r n = (out, r2, evs2)
        \<and> (n < 0 \<or> (\<exists>err. out = Inl err) \<or> (\<exists>d. out = Inr d \<and> int (length d) = n))
      \<longrightarrow> cursor_invariant r2)
   \<and> (cursor_invariant r \<and> adapter (stream r) = RemoteFile \<and> read r n = (out, r2, evs2)
      \<longrightarrow> cursor_invariant r2)"
proof (intro conjI impI)
  assume "FileVideoReader_init e loc cap = (Inr r0, evs0)
      \<or> RemoteFileReader_init e loc cap = (Inr r0, evs0)"
  then show "cursor_invariant r0" by (rule cursor_invariant_init)
next
  assume "cursor_invariant r \<and> refresh e r = (u, r1, evs1)"
  then show "cursor_invariant r1" using cursor_invariant_refresh by blast
next
  assume "cursor_invariant r \<and> read r n = (out, r2, evs2)
        \<and> (n < 0 \<or> (\<exists>err. out = Inl err) \<or> (\<exists>d. out = Inr d \<and> int (length d) = n))"
  then show "cursor_invariant r2" using cursor_invariant_read by blast
next
  assume a: "cursor_invariant r \<and> adapter (stream r) = RemoteFile \<and> read r n = (out, r2, evs2)"
  have "n < 0 \<or> (\<exists>err. out = Inl err) \<or> (\<exists>d. out = Inr d \<and> int (length d) = n)"
  proof (cases out)
    case (Inl err) then show ?thesis by blast
  next
    case (Inr d)
    show ?thesis
    proof (cases "n < 0")
      case True then show ?thesis by simp
    next
      case False
      then have "int (length d) = n" using remote_read_exact a Inr by force
      then show ?thesis using Inr by blast
    qed
  qed
  then show "cursor_invariant r2" using a cursor_invariant_read by blast
qed

theorem cursor_invariant_steps_witness:
  "cursor_invariant (fst (snd (read
      \<lparr>rkind = RemoteFile, video_loc = ''http://h/v.mp4'', max_buffer_length = 10,
       stream = \<lparr>adapter = RemoteFile, pending = [3, 4], is_closed = False\<rparr>,
       response = None, total_bytes = - 1, buffer = Some [1, 2], buffer_pointer = 0\<rparr> 2)))
   \<and> cursor_invariant (fst (snd (refresh (site_env [] [1, 2, 3, 4])
      \<lparr>rkind = RemoteFile, video_loc = ''http://h/v.mp4'', max_buffer_length = 10,
       stream = \<lparr>adapter = RemoteFile, pending = [3, 4], is_closed = False\<rparr>,
       response = None, total_bytes = - 1, buffer = Some [1, 2], buffer_pointer = 0\<rparr>)))"
proof -
  let ?r = "\<lparr>rkind = RemoteFile, video_loc = ''http://h/v.mp4'', max_buffer_length = 10,
       stream = \<lparr>adapter = RemoteFile, pending = [3, 4 :: byte], is_closed = False\<rparr>,
       response = None, total_bytes = - 1, buffer = Some [1, 2 :: byte], buffer_pointer = 0\<rparr>"
  have inv: "cursor_invariant ?r" by (simp add: cursor_invariant_def)
  obtain out r2 evs2 where rd: "read ?r 2 = (out, r2, evs2)" by (metis prod_cases3)
  obtain u r1 evs1 where rf: "refresh (site_env [] [1, 2, 3, 4]) ?r = (u, r1, evs1)"
    by (metis prod_cases3)
  from cursor_invariant_steps [of "site_env [] [1, 2, 3, 4]" "''http://h/v.mp4''" 10 ?r
      "[]" ?r u r1 evs1 2 out r2 evs2] inv rd rf
  have "cursor_invariant r2" and "cursor_invariant r1" by simp_all
  then show ?thesis using rd rf by simp
qed

section \<open>Refresh after overflow\<close>

text \<open>
  C3 as stated fails for negative \<open>k\<close> on the remote reader: with capacity 2 on a
  resource of three bytes, \<open>read(3)\<close> overflows the buffer, \<open>refresh()\<close> reopens, and
  \<open>read(-1)\<close> returns the first byte only (the adapter's \<open>read()\<close> without argument reads
  one byte).
\<close>

theorem remote_reopened_negative_read_one_byte:
  "map_sum id fst
     (open_and_run (site_env [] [1, 2, 3]) RemoteFile ''http://h/v.mp4'' 2
        [Read 3, Refresh, Read (- 1)])
   = Inr [[1, 2, 3], [1]]"
  by (simp add: model_defs)

text \<open>
  C3, amended. On a reader whose buffer has overflowed (holds more bytes than the capacity),
  and whose location still opens, \<open>refresh()\<close> closes the current stream, then opens a new
  one through the subclass's \<open>_open_stream\<close>, empties the buffer and resets the cursor to
  \<open>-1\<close>. A \<open>read(k)\<close> after it returns the first \<open>k\<close> bytes of the resource for every
  \<open>k \<ge> 0\<close> that the resource can supply. On a local file it does so for every \<open>k\<close>: the
  whole file when \<open>k\<close> is larger than the file or negative. On the remote reader a \<open>k\<close>
  larger than the resource raises \<open>StopIteration\<close>.
\<close>

theorem reopening_refresh:
  assumes b: "buffer r = Some b" and full: "int (length b) > max_buffer_length r"
    and res: "resource_of e (rkind r) (video_loc r) = Some res"
  shows "\<exists>r'. refresh e r =
        (Inr (), r',
         [SrcClose,
          case rkind r of
            LocalFile \<Rightarrow> FileOpen (video_loc r)
          | RemoteFile \<Rightarrow> HttpGet (video_loc r)])
      \<and> stream r' = \<lparr>adapter = rkind r, pending = res, is_closed = False\<rparr>
      \<and> buffer r' = Some [] \<and> buffer_pointer r' = - 1
      \<and> (\<forall>k. 0 \<le> k \<and> (rkind r = LocalFile \<or> k \<le> int (length res))
             \<longrightarrow> fst (read r' k) = Inr (take (nat k) res))
      \<and> (\<forall>k. k < 0 \<and> rkind r = LocalFile \<longrightarrow> fst (read r' k) = Inr res)
      \<and> (\<forall>k. int (length res) < k \<and> rkind r = RemoteFile
             \<longrightarrow> fst (read r' k) = Inl StopIteration)"
proof -
  from open_stream_resource [OF res] obtain a where
    os: "open_stream e (rkind r) (video_loc r) =
      (Inr \<lparr>adapter = rkind r, pending = res, is_closed = False\<rparr>, a,
       [case rkind r of LocalFile \<Rightarrow> FileOpen (video_loc r)
        | RemoteFile \<Rightarrow> HttpGet (video_loc r)])"
    by blast
  let ?r' = "(set_response a (r\<lparr>stream := stream_close (stream r)\<rparr>))
      \<lparr>stream := \<lparr>adapter = rkind r, pending = res, is_closed = False\<rparr>,
       buffer := Some [], buffer_pointer := - 1\<rparr>"
  have rf: "refresh e r = (Inr (), ?r',
       [SrcClose, case rkind r of LocalFile \<Rightarrow> FileOpen (video_loc r)
        | RemoteFile \<Rightarrow> HttpGet (video_loc r)])"
    by (simp add: refresh_reopen [OF b full] os)
  have st: "stream ?r' = \<lparr>adapter = rkind r, pending = res, is_closed = False\<rparr>" by simp
  have b': "buffer ?r' = Some []" and p': "buffer_pointer ?r' = - 1" by simp_all
  have rd: "fst (read ?r' k) = Inr (take (nat k) res)"
    if "0 \<le> k" "rkind r = LocalFile \<or> k \<le> int (length res)" for k
    using read_fresh_stream [OF st b' p' that] .
  have ng: "fst (read ?r' k) = Inr res" if "k < 0" "rkind r = LocalFile" for k
    by (rule read_fresh_stream_neg [OF _ that(1)]) (simp add: that(2))
  have sh: "fst (read ?r' k) = Inl StopIteration"
    if "int (length res) < k" "rkind r = RemoteFile" for k
    by (rule read_fresh_stream_short [OF _ b' p' that(1)]) (simp add: that(2))
  show ?thesis using rf st b' p' rd ng sh by blast
qed

theorem reopening_refresh_witness:
  "\<exists>r'. refresh (site_env [] [1, 2, 3, 4])
           \<lparr>rkind = RemoteFile, video_loc = ''http://h/v.mp4'', max_buffer_length = 2,
            stream = \<lparr>adapter = RemoteFile, pending = [4], is_closed = False\<rparr>,
            response = None, total_bytes = - 1, buffer = Some [1, 2, 3], buffer_pointer = 2\<rparr>
         = (Inr (), r', [SrcClose, HttpGet ''http://h/v.mp4''])
      \<and> buffer r' = Some [] \<and> buffer_pointer r' = - 1
      \<and> fst (read r' 3) = Inr [1, 2, 3]
      \<and> fst (read r' 5) = Inl StopIteration"
proof -
  let ?r = "\<lparr>rkind = RemoteFile, video_loc = ''http://h/v.mp4'', max_buffer_length = 2,
            stream = \<lparr>adapter = RemoteFile, pending = [4 :: byte], is_closed = False\<rparr>,
            response = None, total_bytes = - 1, buffer = Some [1, 2, 3 :: byte],
            buffer_pointer = 2\<rparr>"
  have b: "buffer ?r = Some [1, 2, 3]" by simp
  have full: "int (length [1, 2, 3 :: byte]) > max_buffer_length ?r" by simp
  have res: "resource_of (site_env [] [1, 2, 3, 4]) (rkind ?r) (video_loc ?r) = Some [1, 2, 3, 4]"
    by (simp add: resource_of_def site_env_def)
  from reopening_refresh [OF b full res] obtain r' where
    "refresh (site_env [] [1, 2, 3, 4]) ?r = (Inr (), r', [SrcClose, HttpGet ''http://h/v.mp4''])"
    "buffer r' = Some []" "buffer_pointer r' = - 1"
    "\<forall>k. 0 \<le> k \<and> (rkind ?r = LocalFile \<or> k \<le> int (length [1, 2, 3, 4 :: byte]))
       \<longrightarrow> fst (read r' k) = Inr (take (nat k) [1, 2, 3, 4])"
    "\<forall>k. int (length [1, 2, 3, 4 :: byte]) < k \<and> rkind ?r = RemoteFile
       \<longrightarrow> fst (read r' k) = Inl StopIteration"
    by auto
  moreover from this(4) have "fst (read r' 3) = Inr (take (nat 3) [1, 2, 3, 4])"
    by simp
  moreover from \<open>\<forall>k. int (length [1, 2, 3, 4 :: byte]) < k \<and> rkind ?r = RemoteFile
       \<longrightarrow> fst (read r' k) = Inl StopIteration\<close>
  have "fst (read r' 5) = Inl StopIteration" by simp
  ultimately show ?thesis by (simp add: numeral_3_eq_3)
qed

section \<open>Refresh within capacity\<close>

text \<open>
  C2 as stated fails on a reader that has made a \<open>read(n)\<close> with \<open>n < 0\<close>, which takes
  bytes from the source without buffering them: on a remote resource of four bytes with
  capacity 4, after \<open>read(-1)\<close>, \<open>read(2)\<close>, \<open>refresh()\<close> the buffer holds two bytes and
  has not overflowed, and \<open>read(2)\<close> returns the second and third byte of the resource,
  where \<open>read(2)\<close> right after construction returns the first and second.
\<close>

theorem negative_read_breaks_replay:
  "map_sum id fst
     (open_and_run (site_env [] [1, 2, 3, 4]) RemoteFile ''http://h/v.mp4'' 4
        [Read (- 1), Read 2, Refresh, Read 2])
   = Inr [[1], [2, 3], [2, 3]]
   \<and> map_sum id fst
     (open_and_run (site_env [] [1, 2, 3, 4]) RemoteFile ''http://h/v.mp4'' 4 [Read 2])
   = Inr [[1, 2]]"
  by (simp add: model_defs)

text \<open>
  C2, amended. Construct a reader (local or remote) and make any sequence of \<open>read(n)\<close>,
  \<open>n \<ge> 0\<close>, and \<open>refresh()\<close> calls, whether they returned or raised; let the buffer,
  \<open>b\<close>, not have overflowed. The buffer then holds every byte consumed so far, so "at most
  the number of bytes consumed" is \<open>k \<le> len(b)\<close>. Then \<open>refresh()\<close> makes no external
  call, keeps buffer and stream and sets the cursor to \<open>-1\<close>; the following \<open>read(k)\<close>,
  \<open>0 \<le> k \<le> len(b)\<close>, returns the first \<open>k\<close> bytes of the buffer, leaves buffer and
  stream as they were, and makes no call on the source (when nothing at all is buffered,
  \<open>k = 0\<close> and the call made is a read of zero bytes); and these are the bytes that
  \<open>read(k)\<close> returns right after construction.
\<close>

theorem cheap_refresh_replays:
  assumes ini: "FileVideoReader_init e loc cap = (Inr r0, evs0)
         \<or> RemoteFileReader_init e loc cap = (Inr r0, evs0)"
    and calls: "list_all call_nonneg cs"
    and r1: "after_calls e r0 cs = r1"
    and b: "buffer r1 = Some b" and nf: "int (length b) \<le> max_buffer_length r1"
    and k: "0 \<le> k" "k \<le> int (length b)"
  shows "refresh e r1 = (Inr (), r1\<lparr>buffer_pointer := - 1\<rparr>, [])
       \<and> (\<exists>r2 evs2. read (r1\<lparr>buffer_pointer := - 1\<rparr>) k = (Inr (take (nat k) b), r2, evs2)
            \<and> stream r2 = stream r1 \<and> buffer r2 = buffer r1 \<and> buffer_pointer r2 = k - 1
            \<and> (b \<noteq> [] \<longrightarrow> evs2 = []))
       \<and> fst (read r0 k) = Inr (take (nat k) b)"
proof -
  from faithful_init [OF ini] obtain res where
    f0: "faithful e res r0"
    and st0: "stream r0 = \<lparr>adapter = rkind r0, pending = res, is_closed = False\<rparr>"
    and b0: "buffer r0 = Some []" and p0: "buffer_pointer r0 = - 1"
    by blast
  from faithful_after_calls [OF f0 calls] have f1: "faithful e res r1" unfolding r1 .
  from f1 b nf have op: "\<not> is_closed (stream r1)"
    and bp: "b @ pending (stream r1) = res
      \<or> (pending (stream r1) = [] \<and> take (length b) res = b)"
    by (auto simp: faithful_def)
  from bp have pre: "take (length b) res = b" by auto
  let ?r = "r1\<lparr>buffer_pointer := - 1\<rparr>"
  have 1: "refresh e r1 = (Inr (), ?r, [])" by (rule refresh_keep [OF b nf])
  have "\<exists>r2 evs2. read ?r k = (Inr (take (nat k) b), r2, evs2)
      \<and> stream r2 = stream ?r \<and> buffer r2 = buffer ?r \<and> buffer_pointer r2 = k - 1
      \<and> (b \<noteq> [] \<longrightarrow> evs2 = [])"
    by (rule read_rewound [OF _ _ _ _ k]) (use b nf op in simp_all)
  then have 2: "\<exists>r2 evs2. read ?r k = (Inr (take (nat k) b), r2, evs2)
      \<and> stream r2 = stream r1 \<and> buffer r2 = buffer r1 \<and> buffer_pointer r2 = k - 1
      \<and> (b \<noteq> [] \<longrightarrow> evs2 = [])"
    by simp
  have "length b = min (length b) (length res)"
    using arg_cong [OF pre, of length] by simp
  then have lb: "length b \<le> length res" by simp
  then have kl: "k \<le> int (length res)" using k(2) by simp
  have "fst (read r0 k) = Inr (take (nat k) res)"
    by (rule read_fresh_stream [OF st0 b0 p0 k(1)]) (use kl in simp)
  moreover have "take (nat k) b = take (nat k) res"
  proof -
    have nk: "nat k \<le> length b" using k by linarith
    have "take (nat k) b = take (nat k) (take (length b) res)" by (simp only: pre)
    also have "\<dots> = take (nat k) res" using nk by (simp add: min_absorb1)
    finally show ?thesis .
  qed
  ultimately have 3: "fst (read r0 k) = Inr (take (nat k) b)" by simp
  show ?thesis using 1 2 3 by blast
qed

theorem cheap_refresh_replays_witness:
  "\<exists>r0 evs0 r1 r2.
     RemoteFileReader_init (site_env [] [1, 2, 3, 4, 5]) ''http://h/v.mp4'' 4 = (Inr r0, evs0)
     \<and> after_calls (site_env [] [1, 2, 3, 4, 5]) r0 [Read 1, Read 2, Read 9, Refresh, Read 2] = r1
     \<and> buffer r1 = Some [1, 2, 3] \<and> buffer_pointer r1 = 1 \<and> pending (stream r1) = []
     \<and> refresh (site_env [] [1, 2, 3, 4, 5]) r1 = (Inr (), r1\<lparr>buffer_pointer := - 1\<rparr>, [])
     \<and> read (r1\<lparr>buffer_pointer := - 1\<rparr>) 3 = (Inr [1, 2, 3], r2, [])
     \<and> stream r2 = stream r1
     \<and> fst (read r0 3) = Inr [1, 2, 3]"
proof -
  let ?e = "site_env [] [1, 2, 3, 4, 5]"
  let ?rp = "\<lparr>status_code = 200, headers = [], content = [1, 2, 3, 4, 5 :: byte]\<rparr>"
  let ?r0 = "\<lparr>rkind = RemoteFile, video_loc = ''http://h/v.mp4'', max_buffer_length = 4,
    stream = \<lparr>adapter = RemoteFile, pending = [1, 2, 3, 4, 5 :: byte], is_closed = False\<rparr>,
    response = Some ?rp, total_bytes = - 1, buffer = Some [], buffer_pointer = - 1\<rparr>"
  let ?r1 = "\<lparr>rkind = RemoteFile, video_loc = ''http://h/v.mp4'', max_buffer_length = 4,
    stream = \<lparr>adapter = RemoteFile, pending = [], is_closed = False\<rparr>,
    response = Some ?rp, total_bytes = - 1, buffer = Some [1, 2, 3 :: byte],
    buffer_pointer = 1\<rparr>"
  have ini: "RemoteFileReader_init ?e ''http://h/v.mp4'' 4 = (Inr ?r0, [HttpGet ''http://h/v.mp4''])"
    by (simp add: model_defs)
  have r1: "after_calls ?e ?r0 [Read 1, Read 2, Read 9, Refresh, Read 2] = ?r1"
    by (simp add: model_defs)
  have calls: "list_all call_nonneg [Read 1, Read 2, Read 9, Refresh, Read 2]" by simp
  have b: "buffer ?r1 = Some [1, 2, 3]" by simp
  have nf: "int (length [1, 2, 3 :: byte]) \<le> max_buffer_length ?r1" by simp
  from cheap_refresh_replays [OF disjI2 [OF ini] calls r1 b nf, of 3]
  show ?thesis using ini r1 by (auto simp: numeral_3_eq_3)
qed

section \<open>Reading nothing\<close>

text \<open>
  C10. On every reachable reader that has not been closed, \<open>read(0)\<close> returns the empty
  byte string and leaves the reader as it was: buffer, cursor and stream (hence the
  position in the source) are unchanged. The call may still reach the source, with a read
  that delivers no byte.
\<close>

theorem read_zero_frame:
  assumes re: "reachable e r" and b: "buffer r = Some b"
  shows "\<exists>evs. read r 0 = (Inr [], r, evs)"
proof -
  let ?p = "buffer_pointer r"
  let ?s = "stream r"
  from reachable_settled [OF re] b have
    ad: "adapter ?s = rkind r" and op: "\<not> is_closed ?s" and p: "- 1 \<le> ?p"
    and ov: "int (length b) < ?p + 1 \<Longrightarrow> rkind r = LocalFile \<and> pending ?s = []"
    by (auto simp: settled_def)
  have z: "(0::int) \<le> 0" by simp
  have e0: "adapter ?s = LocalFile \<or> nat 0 \<le> length (pending ?s)" by simp
  have sr0: "stream_read ?s 0 = (Inr [], ?s)"
    using stream_read_exact [OF op z e0] by simp
  have same: "r\<lparr>stream := ?s, buffer := Some b, buffer_pointer := ?p\<rparr> = r"
  proof -
    have "r\<lparr>stream := ?s, buffer := buffer r, buffer_pointer := ?p\<rparr> = r" by simp
    then show ?thesis unfolding b .
  qed
  consider (full) "int (length b) > max_buffer_length r"
    | (frontier) "int (length b) \<le> max_buffer_length r" "int (length b) = ?p + 1"
    | (inside) "int (length b) \<le> max_buffer_length r" "int (length b) \<noteq> ?p + 1"
        "0 \<le> int (length b) - (?p + 1)"
    | (straddle) "int (length b) \<le> max_buffer_length r" "int (length b) \<noteq> ?p + 1"
        "int (length b) - (?p + 1) < 0"
    by linarith
  then show ?thesis
  proof cases
    case full
    show ?thesis by (simp add: read_full [OF z b full] sr0)
  next
    case frontier
    show ?thesis using same by (simp add: read_frontier [OF z b frontier] sr0)
  next
    case inside
    have "py_slice b (?p + 1) (?p + 1) = []" by (simp add: py_slice_def Let_def)
    then show ?thesis by (simp add: read_inside [OF z b inside])
  next
    case straddle
    then have gt: "int (length b) < ?p + 1" by simp
    let ?m = "0 - (int (length b) - (?p + 1))"
    have m: "0 \<le> ?m" using gt by simp
    have pe: "pending ?s = []" and fl: "adapter ?s = LocalFile" using ov [OF gt] ad by simp_all
    have e: "adapter ?s = LocalFile \<or> nat ?m \<le> length (pending ?s)" using fl by simp
    have "?s\<lparr>pending := pending ?s\<rparr> = ?s" by simp
    then have ss: "?s\<lparr>pending := []\<rparr> = ?s" unfolding pe .
    have srm: "stream_read ?s ?m = (Inr [], ?s)"
      unfolding stream_read_exact [OF op m e] pe using ss by simp
    have sl: "py_slice_from b (?p + 1) = []"
      using gt p by (simp add: py_slice_from_nonneg)
    show ?thesis unfolding read_straddle [OF z b straddle] srm sl
      using same by simp
  qed
qed


theorem read_zero_frame_witness:
  "\<exists>r0 evs0 out r evs evs'.
     FileVideoReader_init (file_env [1, 2, 3]) ''v.mp4'' MAX_BUFFER_LENGTH = (Inr r0, evs0)
     \<and> read r0 2 = (out, r, evs) \<and> buffer r = Some [1, 2]
     \<and> read r 0 = (Inr [], r, evs')"
proof -
  let ?e = "file_env [1, 2, 3]"
  obtain r0 evs0 where
    ini: "FileVideoReader_init ?e ''v.mp4'' MAX_BUFFER_LENGTH = (Inr r0, evs0)"
    by (simp add: model_defs)
  obtain out r evs where rd: "read r0 2 = (out, r, evs)" and b: "buffer r = Some [1, 2]"
    using ini by (auto simp: model_defs)
  have "reachable ?e r0" by (rule reachable.construct_file [OF ini])
  then have re: "reachable ?e r" by (rule reachable.after_read [OF _ rd])
  from read_zero_frame [OF re b] obtain evs' where "read r 0 = (Inr [], r, evs')" by blast
  then show ?thesis using ini rd b by blast
qed

section \<open>Fixed-point decoding\<close>




end
